theory Spec2Isabelle
  imports Main
begin

section \<open>Pipe messages and pipe values (app/feed/pipe)\<close>

text \<open>
  The data-pipe state kind, the messages a node sends when its pipe changes, and the
  pipe value a node holds. A thrown JavaScript value is a \<open>fault\<close>. A \<open>PipeMapper\<close>
  reads its input object by value and either throws or returns a fresh object, given
  here by its entries (the first entry of a key is the one the object holds): every
  mapper of app/nodes/nodes.tsx builds its result arrays anew on each call and changes
  nothing else.
\<close>

datatype PipeState = Ok | BadConfig | Err

datatype 'a PipeMessage =
    OkMessage string 'a
  | BadConfigMessage string
  | ErrMessage string string

fun fromNode :: "'a PipeMessage \<Rightarrow> string" where
  "fromNode (OkMessage n v) = n"
| "fromNode (BadConfigMessage n) = n"
| "fromNode (ErrMessage n e) = n"

fun kind :: "'a PipeMessage \<Rightarrow> PipeState" where
  "kind (OkMessage n v) = Ok"
| "kind (BadConfigMessage n) = BadConfig"
| "kind (ErrMessage n e) = Err"

fun mapMessage :: "'a PipeMessage \<Rightarrow> ('a \<Rightarrow> 'b) \<Rightarrow> 'b PipeMessage" where
  "mapMessage (OkMessage n v) map' = OkMessage n (map' v)"
| "mapMessage (BadConfigMessage n) map' = BadConfigMessage n"
| "mapMessage (ErrMessage n e) map' = ErrMessage n e"

datatype fault = TypeError string | Error string

type_synonym PipeMapper =
  "(string \<rightharpoonup> string list) \<Rightarrow> fault + (string \<times> string list) list"

datatype PipeValue = OkPipe PipeMapper | BadConfigPipe | ErrPipe string

section \<open>Nodes, handles and edges (app/nodes/nodes.tsx, reactflow)\<close>

record HandleInfo =
  id' :: string
  label :: string
  group :: "string option"
  optional :: "bool option"

record Handles =
  source :: "HandleInfo list"
  target :: "HandleInfo list"

record Node =
  handles :: Handles
  pipeValue :: PipeValue

record Edge =
  source :: string
  sourceHandle :: string
  target :: string
  targetHandle :: string
  animated :: bool

text \<open>
  \<open>HandleInfo.optional\<close> may be absent (\<open>None\<close>), which the code reads as false.
  The ends of an edge and its handle ids are strings: every handle of nodes.tsx has an
  id. The \<open>nodes\<close> object of \<open>Home\<close> is the list of its entries in the order in which
  \<open>for (let nodeID in nodes)\<close> enumerates them; \<open>nodes[nodeID]\<close> is
  \<open>map_of nodes nodeID\<close>.
\<close>

type_synonym Nodes = "(string \<times> Node) list"

section \<open>Edge additions (onConnect)\<close>

text \<open>
  The duplicate search of \<open>onConnect\<close>, the loop over the current edges that returns
  at the first edge with the same four end points.
\<close>

fun duplicateEdge :: "Edge \<Rightarrow> Edge list \<Rightarrow> bool" where
  "duplicateEdge newEdge [] = False"
| "duplicateEdge newEdge (edge # edges) =
     (if Edge.source edge = Edge.source newEdge
         \<and> Edge.target edge = Edge.target newEdge
         \<and> sourceHandle edge = sourceHandle newEdge
         \<and> targetHandle edge = targetHandle newEdge
      then True
      else duplicateEdge newEdge edges)"

text \<open>
  \<open>onConnect\<close> on the pair of the \<open>edges\<close> state and the \<open>pipeCacheValid\<close> flag.
  \<open>addEdge\<close> is reactflow's function, a parameter here.
\<close>

definition onConnect ::
  "(Edge \<Rightarrow> Edge list \<Rightarrow> Edge list) \<Rightarrow> Edge \<Rightarrow> Edge list \<times> bool \<Rightarrow> Edge list \<times> bool" where
  "onConnect addEdge newEdge st =
     (case st of (edges, valid) \<Rightarrow>
        if Edge.source newEdge = Edge.target newEdge then (edges, valid)
        else if duplicateEdge newEdge edges then (edges, valid)
        else (addEdge (newEdge\<lparr>animated := True\<rparr>) edges, False))"

section \<open>The pipe cache (loadCache)\<close>

text \<open>
  An object of type \<open>{[key: string]: string[]}\<close> holds references to arrays: a
  \<open>Bundle\<close> maps a handle id to the address of its array, and the arrays live in
  the store of the state. \<open>push\<close> changes an array in place, so every Bundle that
  holds its address sees the change.

  Node ids and handle ids are the keys of such objects. A key that every JavaScript
  object inherits from \<open>Object.prototype\<close> (\<open>inheritedName\<close>) is found by a lookup
  though nothing was stored under it: for such a node id the test
  \<open>if (pipeCache.current[nodeID])\<close> finds the inherited value and \<open>loadCache\<close>
  returns it. The ids of the nodes of this program are \<open>Feed\<close> and decimal numbers,
  and the handle ids are those of nodes.tsx, none of them such a name. \<open>loadCache\<close>
  below is the function on ids that are not inherited names, where a lookup finds what
  was stored under the key and nothing else.
\<close>

definition inheritedName :: "string \<Rightarrow> bool" where
  "inheritedName k \<longleftrightarrow>
     k \<in> set [''constructor'', ''hasOwnProperty'', ''isPrototypeOf'', ''propertyIsEnumerable'',
       ''toLocaleString'', ''toString'', ''valueOf'', ''__proto__'', ''__defineGetter__'',
       ''__defineSetter__'', ''__lookupGetter__'', ''__lookupSetter__'']"

type_synonym Bundle = "string \<rightharpoonup> nat"

datatype CacheEntry =
    OutputCacheEntry Bundle Bundle
  | ErrorCacheEntry Bundle string

fun input' :: "CacheEntry \<Rightarrow> Bundle" where
  "input' (OutputCacheEntry i out) = i"
| "input' (ErrorCacheEntry i e) = i"

fun output' :: "CacheEntry \<Rightarrow> Bundle option" where
  "output' (OutputCacheEntry i out) = Some out"
| "output' (ErrorCacheEntry i e) = None"

text \<open>
  The state that \<open>loadCache\<close> reads and writes: the two refs \<open>pipeCache\<close> and
  \<open>pipeCacheValid\<close>, the store of arrays with its next free address, the faults
  written by \<open>console.log\<close>, and a trace of the mapper calls made (node id and the
  input, by value, the mapper was called with).
\<close>

record State =
  pipeCache :: "string \<rightharpoonup> CacheEntry"
  pipeCacheValid :: bool
  arrays :: "nat \<Rightarrow> string list"
  nextArray :: nat
  console :: "fault list"
  invoked :: "(string \<times> (string \<rightharpoonup> string list)) list"

definition bundleValue :: "State \<Rightarrow> Bundle \<Rightarrow> (string \<rightharpoonup> string list)" where
  "bundleValue s b = (\<lambda>p. map_option (arrays s) (b p))"

text \<open>\<open>arrays[b].push(...arrays[a])\<close>\<close>

definition push :: "nat \<Rightarrow> nat \<Rightarrow> State \<Rightarrow> State" where
  "push b a s = s\<lparr>arrays := (arrays s)(b := arrays s b @ arrays s a)\<rparr>"

text \<open>The object a mapper returns: one fresh array for each of its entries.\<close>

fun allocBundle :: "(string \<times> string list) list \<Rightarrow> State \<Rightarrow> Bundle \<times> State" where
  "allocBundle [] s = (Map.empty, s)"
| "allocBundle ((k, v) # kvs) s =
     (case allocBundle kvs (s\<lparr>arrays := (arrays s)(nextArray s := v), nextArray := Suc (nextArray s)\<rparr>) of
        (b, s1) \<Rightarrow> (b(k \<mapsto> nextArray s), s1))"

text \<open>\<open>loadCache(edge.source).output?.[edge.sourceHandle]\<close>\<close>

definition handleInput :: "CacheEntry \<Rightarrow> string \<Rightarrow> nat option" where
  "handleInput entry h = (case output' entry of None \<Rightarrow> None | Some out \<Rightarrow> out h)"

text \<open>
  The loop \<open>for (let edge of edges)\<close> of \<open>loadCache\<close>, with the recursive call as the
  parameter \<open>rec\<close>. \<open>None\<close> is a call that does not return; \<open>Inl\<close> is a fault that
  leaves the loop.
\<close>

fun forEdges ::
  "(string \<Rightarrow> State \<Rightarrow> ((fault + CacheEntry) \<times> State) option) \<Rightarrow> string \<Rightarrow> Edge list
     \<Rightarrow> Bundle \<Rightarrow> State \<Rightarrow> ((fault + Bundle) \<times> State) option" where
  "forEdges rec nodeID [] inputData s = Some (Inr inputData, s)"
| "forEdges rec nodeID (edge # rest) inputData s =
     (if Edge.target edge = nodeID then
        (case rec (Edge.source edge) s of
           None \<Rightarrow> None
         | Some (Inl e, s1) \<Rightarrow> Some (Inl e, s1)
         | Some (Inr entry, s1) \<Rightarrow>
             (case handleInput entry (sourceHandle edge) of
                None \<Rightarrow> forEdges rec nodeID rest inputData s1
              | Some a \<Rightarrow>
                  (case inputData (targetHandle edge) of
                     Some b \<Rightarrow> forEdges rec nodeID rest inputData (push b a s1)
                   | None \<Rightarrow> forEdges rec nodeID rest (inputData(targetHandle edge \<mapsto> a)) s1)))
      else forEdges rec nodeID rest inputData s)"

definition isOptional :: "HandleInfo \<Rightarrow> bool" where
  "isOptional handle = (optional handle = Some True)"

text \<open>The test of the loop over \<open>inputHandles\<close> that ends in "Missing input".\<close>

definition missingInput :: "HandleInfo list \<Rightarrow> Bundle \<Rightarrow> State \<Rightarrow> bool" where
  "missingInput inputHandles inputData s =
     list_ex (\<lambda>handle. \<not> isOptional handle \<and>
        (case inputData (id' handle) of None \<Rightarrow> True | Some a \<Rightarrow> length (arrays s a) = 0))
       inputHandles"

text \<open>The \<open>switch (pipeValue.kind)\<close> of \<open>loadCache\<close>, labelled \<open>calcCache\<close>.\<close>

definition calcCache :: "string \<Rightarrow> Node \<Rightarrow> Bundle \<Rightarrow> State \<Rightarrow> CacheEntry \<times> State" where
  "calcCache nodeID node inputData s =
     (case pipeValue node of
        BadConfigPipe \<Rightarrow> (ErrorCacheEntry inputData ''Node configuration is invalid'', s)
      | ErrPipe e \<Rightarrow> (ErrorCacheEntry inputData e, s)
      | OkPipe mapper \<Rightarrow>
          if missingInput (Handles.target (handles node)) inputData s
          then (ErrorCacheEntry inputData ''Missing input'', s)
          else
            (let s1 = s\<lparr>invoked := invoked s @ [(nodeID, bundleValue s inputData)]\<rparr> in
             case mapper (bundleValue s inputData) of
               Inl e \<Rightarrow>
                 (ErrorCacheEntry inputData ''Error in node implementation'',
                  s1\<lparr>console := console s1 @ [e]\<rparr>)
             | Inr out \<Rightarrow>
                 (case allocBundle out s1 of (outputData, s2) \<Rightarrow>
                    (case find (\<lambda>handle. outputData (id' handle) = None) (Handles.source (handles node)) of
                       Some handle \<Rightarrow>
                         (ErrorCacheEntry inputData ''Error in node implementation'',
                          s2\<lparr>console := console s2 @
                             [Error (''Missing output data for node '' @ nodeID @ '' handle '' @ id' handle)]\<rparr>)
                     | None \<Rightarrow> (OutputCacheEntry inputData outputData, s2)))))"

text \<open>
  \<open>loadCache\<close>. The recursion has no guard against a cycle of edges, so the first
  argument bounds the depth of the calls and \<open>None\<close> is a call that has not returned
  within it. Reading \<open>nodes[nodeID].data\<close> of a node id that \<open>nodes\<close> does not hold
  throws a TypeError.
\<close>

primrec loadCache ::
  "nat \<Rightarrow> Nodes \<Rightarrow> Edge list \<Rightarrow> string \<Rightarrow> State \<Rightarrow> ((fault + CacheEntry) \<times> State) option" where
  "loadCache 0 nodes edges nodeID s = None"
| "loadCache (Suc fuel) nodes edges nodeID s =
     (case pipeCache s nodeID of
        Some entry \<Rightarrow> Some (Inr entry, s)
      | None \<Rightarrow>
          (case map_of nodes nodeID of
             None \<Rightarrow> Some (Inl (TypeError ''Cannot read properties of undefined''), s)
           | Some node \<Rightarrow>
               (case forEdges (loadCache fuel nodes edges) nodeID edges Map.empty s of
                  None \<Rightarrow> None
                | Some (Inl e, s1) \<Rightarrow> Some (Inl e, s1)
                | Some (Inr inputData, s1) \<Rightarrow>
                    (case calcCache nodeID node inputData s1 of (cacheEntry, s2) \<Rightarrow>
                       Some (Inr cacheEntry, s2\<lparr>pipeCache := (pipeCache s2)(nodeID \<mapsto> cacheEntry)\<rparr>)))))"

section \<open>Recalculation of an invalid cache (Home)\<close>

text \<open>The loop \<open>for (let nodeID in nodes) loadCache(nodeID)\<close>.\<close>

fun forNodes ::
  "(string \<Rightarrow> State \<Rightarrow> ((fault + CacheEntry) \<times> State) option) \<Rightarrow> string list \<Rightarrow> State
     \<Rightarrow> ((fault + unit) \<times> State) option" where
  "forNodes rec [] s = Some (Inr (), s)"
| "forNodes rec (nodeID # rest) s =
     (case rec nodeID s of
        None \<Rightarrow> None
      | Some (Inl e, s1) \<Rightarrow> Some (Inl e, s1)
      | Some (Inr entry, s1) \<Rightarrow> forNodes rec rest s1)"

text \<open>\<open>if (!pipeCacheValid.current) { ... }\<close> in the body of \<open>Home\<close>.\<close>

definition recalculate ::
  "nat \<Rightarrow> Nodes \<Rightarrow> Edge list \<Rightarrow> State \<Rightarrow> ((fault + unit) \<times> State) option" where
  "recalculate fuel nodes edges s =
     (if \<not> pipeCacheValid s then
        (case forNodes (loadCache fuel nodes edges) (map fst nodes) (s\<lparr>pipeCache := Map.empty\<rparr>) of
           None \<Rightarrow> None
         | Some (Inl e, s1) \<Rightarrow> Some (Inl e, s1)
         | Some (Inr u, s1) \<Rightarrow> Some (Inr (), s1\<lparr>pipeCacheValid := True\<rparr>))
      else Some (Inr (), s))"

section \<open>Relations between states, and sample graphs\<close>

text \<open>
  \<open>upstream edges D\<close> relates a node to the source of one of its incoming edges,
  where neither has an entry among the node ids \<open>D\<close> of the cache.
\<close>

definition upstream :: "Edge list \<Rightarrow> string set \<Rightarrow> (string \<times> string) set" where
  "upstream edges D =
     {(x, y). x \<notin> D \<and> y \<notin> D \<and> (\<exists>e\<in>set edges. Edge.target e = x \<and> Edge.source e = y)}"

text \<open>
  \<open>extends s s1\<close>: the cache of \<open>s1\<close> has an entry for every node that has one in
  \<open>s\<close>, and the mapper calls made from \<open>s\<close> to \<open>s1\<close> are calls of distinct nodes,
  each of a node that had no entry in \<open>s\<close> and has one in \<open>s1\<close>.
\<close>

definition extends :: "State \<Rightarrow> State \<Rightarrow> bool" where
  "extends s s1 \<longleftrightarrow>
     dom (pipeCache s) \<subseteq> dom (pipeCache s1) \<and>
     (\<exists>new. invoked s1 = invoked s @ new \<and> distinct (map fst new) \<and>
        fst ` set new \<subseteq> dom (pipeCache s1) - dom (pipeCache s))"

text \<open>
  The refs of \<open>Home\<close> as it starts, and sample nodes: a Text Input node, a node with
  the handles of the Regex node whose mapper returns every input value, a node whose
  mapper throws, a node whose mapper returns an object without its output handle, and
  a node whose only input handle is optional.
\<close>

definition emptyState :: State where
  "emptyState = \<lparr>pipeCache = Map.empty, pipeCacheValid = False, arrays = (\<lambda>a. []),
     nextArray = 0, console = [], invoked = []\<rparr>"

definition handleInfo :: "string \<Rightarrow> bool option \<Rightarrow> HandleInfo" where
  "handleInfo i opt = \<lparr>id' = i, label = i, group = None, optional = opt\<rparr>"

definition edge :: "string \<Rightarrow> string \<Rightarrow> string \<Rightarrow> string \<Rightarrow> Edge" where
  "edge n h m k = \<lparr>Edge.source = n, sourceHandle = h, target = m, targetHandle = k, animated = True\<rparr>"

definition textMapper :: "string \<Rightarrow> PipeMapper" where
  "textMapper text = (\<lambda>input. Inr [(''text-out'', [text])])"

definition textInputNode :: "string \<Rightarrow> Node" where
  "textInputNode text =
     \<lparr>handles = \<lparr>Handles.source = [handleInfo ''text-out'' None], target = []\<rparr>,
      pipeValue = OkPipe (textMapper text)\<rparr>"

definition matchAll :: PipeMapper where
  "matchAll = (\<lambda>input. case input ''data-in'' of
       None \<Rightarrow> Inl (TypeError ''values is undefined'')
     | Some values \<Rightarrow> Inr [(''data-out'', values)])"

definition matchAllNode :: Node where
  "matchAllNode =
     \<lparr>handles = \<lparr>Handles.source = [handleInfo ''data-out'' None], target = [handleInfo ''data-in'' None]\<rparr>,
      pipeValue = OkPipe matchAll\<rparr>"

definition throwing :: PipeMapper where
  "throwing = (\<lambda>input. Inl (Error ''boom''))"

definition throwingNode :: Node where
  "throwingNode =
     \<lparr>handles = \<lparr>Handles.source = [handleInfo ''data-out'' None], target = []\<rparr>,
      pipeValue = OkPipe throwing\<rparr>"

definition silent :: PipeMapper where
  "silent = (\<lambda>input. Inr [])"

definition silentNode :: Node where
  "silentNode =
     \<lparr>handles = \<lparr>Handles.source = [handleInfo ''data-out'' None], target = []\<rparr>,
      pipeValue = OkPipe silent\<rparr>"

definition languageMapper :: PipeMapper where
  "languageMapper = (\<lambda>input. case input ''language'' of
       None \<Rightarrow> Inr [(''feed-out'', [''en''])]
     | Some values \<Rightarrow> Inr [(''feed-out'', values)])"

definition languageNode :: Node where
  "languageNode =
     \<lparr>handles = \<lparr>Handles.source = [handleInfo ''feed-out'' None], target = [handleInfo ''language'' (Some True)]\<rparr>,
      pipeValue = OkPipe languageMapper\<rparr>"

text \<open>
  Two Text Input nodes \<open>1\<close> and \<open>2\<close> that both feed the input handle of node \<open>3\<close>;
  node \<open>1\<close> alone feeds node \<open>4\<close>.
\<close>

definition aliasNodes :: Nodes where
  "aliasNodes = [(''1'', textInputNode ''a''), (''2'', textInputNode ''b''),
     (''3'', matchAllNode), (''4'', matchAllNode)]"

definition aliasEdges :: "Edge list" where
  "aliasEdges = [edge ''1'' ''text-out'' ''3'' ''data-in'', edge ''2'' ''text-out'' ''3'' ''data-in'',
     edge ''1'' ''text-out'' ''4'' ''data-in'']"

text \<open>A graph whose only edge comes from a node \<open>9\<close> that \<open>nodes\<close> does not hold.\<close>

definition danglingNodes :: Nodes where
  "danglingNodes = [(''3'', matchAllNode)]"

definition danglingEdges :: "Edge list" where
  "danglingEdges = [edge ''9'' ''text-out'' ''3'' ''data-in'']"

text \<open>
  A chain \<open>1 \<rightarrow> 2 \<rightarrow> Feed\<close>: node \<open>1\<close> has failed, node \<open>2\<close> needs its input, the
  input of \<open>Feed\<close> is optional.
\<close>

definition chainNodes :: Nodes where
  "chainNodes = [(''1'', \<lparr>handles = handles (textInputNode ''a''), pipeValue = ErrPipe ''404 Not Found''\<rparr>),
     (''2'', matchAllNode), (''Feed'', languageNode)]"

definition chainEdges :: "Edge list" where
  "chainEdges = [edge ''1'' ''text-out'' ''2'' ''data-in'', edge ''2'' ''data-out'' ''Feed'' ''language'']"

text \<open>The error text of the entry the cache holds for a node, if it is an error entry.\<close>

definition entryError :: "State \<Rightarrow> string \<Rightarrow> string option" where
  "entryError s n =
     (case pipeCache s n of Some (ErrorCacheEntry i e) \<Rightarrow> Some e | _ \<Rightarrow> None)"

text \<open>The addresses of the arrays an entry refers to.\<close>

definition addresses :: "CacheEntry \<Rightarrow> nat set" where
  "addresses entry = ran (input' entry) \<union> (case output' entry of None \<Rightarrow> {} | Some out \<Rightarrow> ran out)"

text \<open>A Text Input node \<open>1\<close> that feeds node \<open>4\<close>.\<close>

definition singleNodes :: Nodes where
  "singleNodes = [(''1'', textInputNode ''a''), (''4'', matchAllNode)]"

definition singleEdges :: "Edge list" where
  "singleEdges = [edge ''1'' ''text-out'' ''4'' ''data-in'']"

text \<open>
  A node whose mapper returns an empty array (a Regex node without a match), as the
  only input of the optional handle of \<open>Feed\<close>.
\<close>

definition noMatch :: PipeMapper where
  "noMatch = (\<lambda>input. Inr [(''data-out'', [])])"

definition noMatchNode :: Node where
  "noMatchNode =
     \<lparr>handles = \<lparr>Handles.source = [handleInfo ''data-out'' None], target = []\<rparr>,
      pipeValue = OkPipe noMatch\<rparr>"

definition emptyFedNodes :: Nodes where
  "emptyFedNodes = [(''7'', noMatchNode), (''Feed'', languageNode)]"

definition emptyFedEdges :: "Edge list" where
  "emptyFedEdges = [edge ''7'' ''data-out'' ''Feed'' ''language'']"

text \<open>The input and the output that the cache holds for a node at a handle, by value.\<close>

definition cachedInput :: "State \<Rightarrow> string \<Rightarrow> string \<Rightarrow> string list option" where
  "cachedInput s n p = (case pipeCache s n of None \<Rightarrow> None | Some entry \<Rightarrow> bundleValue s (input' entry) p)"

definition cachedOutput :: "State \<Rightarrow> string \<Rightarrow> string \<Rightarrow> string list option" where
  "cachedOutput s n p =
     (case pipeCache s n of None \<Rightarrow> None
      | Some entry \<Rightarrow> (case output' entry of None \<Rightarrow> None | Some out \<Rightarrow> bundleValue s out p))"

section \<open>Allocation of the object a mapper returns\<close>

lemma allocBundle_frame:
  "allocBundle out s = (b, s1) \<Longrightarrow>
     pipeCache s1 = pipeCache s \<and> pipeCacheValid s1 = pipeCacheValid s \<and> console s1 = console s
     \<and> invoked s1 = invoked s \<and> nextArray s \<le> nextArray s1
     \<and> (\<forall>a < nextArray s. arrays s1 a = arrays s a)"
proof (induction out arbitrary: s b s1)
  case Nil
  then show ?case by simp
next
  case (Cons kv out)
  obtain k v where kv: "kv = (k, v)" by (cases kv)
  let ?s = "s\<lparr>arrays := (arrays s)(nextArray s := v), nextArray := Suc (nextArray s)\<rparr>"
  obtain b' where b': "allocBundle out ?s = (b', s1)"
    using Cons.prems kv by (auto split: prod.splits)
  from Cons.IH [OF b'] show ?case by auto
qed

lemma allocBundle_value:
  "allocBundle out s = (b, s1) \<Longrightarrow>
     (\<forall>k. (case b k of None \<Rightarrow> map_of out k = None
                     | Some a \<Rightarrow> nextArray s \<le> a \<and> a < nextArray s1 \<and> map_of out k = Some (arrays s1 a)))"
proof (induction out arbitrary: s b s1)
  case Nil
  then show ?case by auto
next
  case (Cons kv out)
  obtain k v where kv: "kv = (k, v)" by (cases kv)
  let ?s = "s\<lparr>arrays := (arrays s)(nextArray s := v), nextArray := Suc (nextArray s)\<rparr>"
  obtain b' where b': "allocBundle out ?s = (b', s1)" and b: "b = b'(k \<mapsto> nextArray s)"
    using Cons.prems kv by (auto split: prod.splits)
  have fr: "nextArray ?s \<le> nextArray s1" "arrays s1 (nextArray s) = v"
    using allocBundle_frame [OF b'] by auto
  show ?case
  proof
    fix k'
    show "case b k' of None \<Rightarrow> map_of (kv # out) k' = None
       | Some a \<Rightarrow> nextArray s \<le> a \<and> a < nextArray s1 \<and> map_of (kv # out) k' = Some (arrays s1 a)"
    proof (cases "k' = k")
      case True
      then show ?thesis using b kv fr by simp
    next
      case False
      with Cons.IH [OF b'] have "case b' k' of None \<Rightarrow> map_of out k' = None
         | Some a \<Rightarrow> nextArray ?s \<le> a \<and> a < nextArray s1 \<and> map_of out k' = Some (arrays s1 a)"
        by blast
      then show ?thesis using False b kv by (auto split: option.splits)
    qed
  qed
qed

lemma allocBundle_bundleValue:
  "allocBundle out s = (b, s1) \<Longrightarrow> bundleValue s1 b = map_of out"
proof
  fix k
  assume a: "allocBundle out s = (b, s1)"
  show "bundleValue s1 b k = map_of out k"
    using allocBundle_value [OF a, rule_format, of k]
    by (auto simp: bundleValue_def split: option.splits)
qed

lemma allocBundle_None:
  "allocBundle out s = (b, s1) \<Longrightarrow> b k = None \<longleftrightarrow> map_of out k = None"
  using allocBundle_value [of out s b s1, rule_format, of k]
  by (auto split: option.splits)

section \<open>The switch on the pipe value\<close>

lemma missingInput_iff:
  "missingInput hs inputData s \<longleftrightarrow>
     (\<exists>h\<in>set hs. \<not> isOptional h \<and>
        (inputData (id' h) = None \<or> (\<exists>a. inputData (id' h) = Some a \<and> arrays s a = [])))"
  by (auto simp: missingInput_def list_ex_iff split: option.splits)

lemma calcCache_missing:
  assumes "pipeValue node = OkPipe mapper"
    and "missingInput (Handles.target (handles node)) inputData s"
  shows "calcCache nodeID node inputData s = (ErrorCacheEntry inputData ''Missing input'', s)"
  using assms by (simp add: calcCache_def)

lemma calcCache_throws:
  assumes "pipeValue node = OkPipe mapper"
    and "\<not> missingInput (Handles.target (handles node)) inputData s"
    and "mapper (bundleValue s inputData) = Inl e"
  shows "calcCache nodeID node inputData s =
     (ErrorCacheEntry inputData ''Error in node implementation'',
      s\<lparr>invoked := invoked s @ [(nodeID, bundleValue s inputData)], console := console s @ [e]\<rparr>)"
  using assms by (simp add: calcCache_def)

lemma calcCache_incomplete:
  assumes "pipeValue node = OkPipe mapper"
    and "\<not> missingInput (Handles.target (handles node)) inputData s"
    and "mapper (bundleValue s inputData) = Inr out"
    and "handle \<in> set (Handles.source (handles node))"
    and "map_of out (id' handle) = None"
  shows "\<exists>s2 h. calcCache nodeID node inputData s =
           (ErrorCacheEntry inputData ''Error in node implementation'', s2)
         \<and> console s2 = console s @ [Error (''Missing output data for node '' @ nodeID @ '' handle '' @ id' h)]
         \<and> h \<in> set (Handles.source (handles node)) \<and> map_of out (id' h) = None
         \<and> invoked s2 = invoked s @ [(nodeID, bundleValue s inputData)]
         \<and> pipeCache s2 = pipeCache s"
proof -
  let ?s1 = "s\<lparr>invoked := invoked s @ [(nodeID, bundleValue s inputData)]\<rparr>"
  obtain outputData s2 where al: "allocBundle out ?s1 = (outputData, s2)"
    by (cases "allocBundle out ?s1")
  have "outputData (id' handle) = None"
    using allocBundle_None [OF al] assms(5) by simp
  with assms(4) have "find (\<lambda>h. outputData (id' h) = None) (Handles.source (handles node)) \<noteq> None"
    by (auto simp: find_None_iff)
  then obtain h where f: "find (\<lambda>h. outputData (id' h) = None) (Handles.source (handles node)) = Some h"
    by blast
  then have h: "h \<in> set (Handles.source (handles node))" "outputData (id' h) = None"
    by (auto simp: find_Some_iff)
  have m: "map_of out (id' h) = None"
    using allocBundle_None [OF al] h(2) by simp
  let ?s3 = "s2\<lparr>console := console s2 @ [Error (''Missing output data for node '' @ nodeID @ '' handle '' @ id' h)]\<rparr>"
  have c: "calcCache nodeID node inputData s = (ErrorCacheEntry inputData ''Error in node implementation'', ?s3)"
    using assms(1-3) al f by (simp add: calcCache_def)
  have fr: "console ?s3 = console s @ [Error (''Missing output data for node '' @ nodeID @ '' handle '' @ id' h)]"
    "invoked ?s3 = invoked s @ [(nodeID, bundleValue s inputData)]" "pipeCache ?s3 = pipeCache s"
    using allocBundle_frame [OF al] by simp_all
  show ?thesis
    using c fr h(1) m by blast
qed

lemma calcCache_output:
  assumes "pipeValue node = OkPipe mapper"
    and "\<not> missingInput (Handles.target (handles node)) inputData s"
    and "mapper (bundleValue s inputData) = Inr out"
    and "\<forall>handle\<in>set (Handles.source (handles node)). map_of out (id' handle) \<noteq> None"
  shows "\<exists>outputData s2. calcCache nodeID node inputData s = (OutputCacheEntry inputData outputData, s2)
         \<and> bundleValue s2 outputData = map_of out
         \<and> invoked s2 = invoked s @ [(nodeID, bundleValue s inputData)]
         \<and> console s2 = console s \<and> pipeCache s2 = pipeCache s"
proof -
  let ?s1 = "s\<lparr>invoked := invoked s @ [(nodeID, bundleValue s inputData)]\<rparr>"
  obtain outputData s2 where al: "allocBundle out ?s1 = (outputData, s2)"
    by (cases "allocBundle out ?s1")
  have "\<forall>h\<in>set (Handles.source (handles node)). outputData (id' h) \<noteq> None"
    using allocBundle_None [OF al] assms(4) by simp
  then have "find (\<lambda>h. outputData (id' h) = None) (Handles.source (handles node)) = None"
    by (auto simp: find_None_iff)
  then have "calcCache nodeID node inputData s = (OutputCacheEntry inputData outputData, s2)"
    using assms(1-3) al by (simp add: calcCache_def)
  then show ?thesis
    using allocBundle_frame [OF al] allocBundle_bundleValue [OF al] by simp
qed

text \<open>What the last step of calcCache leaves alone, whatever the pipe value.\<close>

lemma calcCache_frame:
  assumes "calcCache nodeID node inputData s = (entry, s2)"
  shows "pipeCache s2 = pipeCache s \<and> pipeCacheValid s2 = pipeCacheValid s
     \<and> (invoked s2 = invoked s \<or> (\<exists>v. invoked s2 = invoked s @ [(nodeID, v)]))
     \<and> input' entry = inputData"
proof (cases "pipeValue node")
  case (OkPipe mapper)
  show ?thesis
  proof (cases "missingInput (Handles.target (handles node)) inputData s")
    case True
    then show ?thesis using assms OkPipe by (auto simp: calcCache_def)
  next
    case False
    let ?s1 = "s\<lparr>invoked := invoked s @ [(nodeID, bundleValue s inputData)]\<rparr>"
    show ?thesis
    proof (cases "mapper (bundleValue s inputData)")
      case (Inl e)
      then show ?thesis using assms OkPipe False by (auto simp: calcCache_def)
    next
      case (Inr out)
      obtain outputData s3 where al: "allocBundle out ?s1 = (outputData, s3)"
        by (cases "allocBundle out ?s1")
      show ?thesis
        using assms OkPipe False Inr al allocBundle_frame [OF al]
        by (auto simp: calcCache_def split: option.splits)
    qed
  qed
next
  case BadConfigPipe
  then show ?thesis using assms by (auto simp: calcCache_def)
next
  case (ErrPipe e)
  then show ?thesis using assms by (auto simp: calcCache_def)
qed

section \<open>The loops, step by step and for any relation between the states\<close>

lemma push_frame [simp]:
  "pipeCache (push b a s) = pipeCache s" "invoked (push b a s) = invoked s"
  "console (push b a s) = console s" "pipeCacheValid (push b a s) = pipeCacheValid s"
  by (simp_all add: push_def)

lemma forEdges_step:
  assumes "forEdges rec n (e # es) inp s = Some (r, s1)"
  obtains
    (skip) "Edge.target e \<noteq> n" "forEdges rec n es inp s = Some (r, s1)"
  | (fault) f where "Edge.target e = n" "rec (Edge.source e) s = Some (Inl f, s1)" "r = Inl f"
  | (none) entry s' where "Edge.target e = n" "rec (Edge.source e) s = Some (Inr entry, s')"
      "handleInput entry (sourceHandle e) = None" "forEdges rec n es inp s' = Some (r, s1)"
  | (set) entry s' a where "Edge.target e = n" "rec (Edge.source e) s = Some (Inr entry, s')"
      "handleInput entry (sourceHandle e) = Some a" "inp (targetHandle e) = None"
      "forEdges rec n es (inp(targetHandle e \<mapsto> a)) s' = Some (r, s1)"
  | (push) entry s' a b where "Edge.target e = n" "rec (Edge.source e) s = Some (Inr entry, s')"
      "handleInput entry (sourceHandle e) = Some a" "inp (targetHandle e) = Some b"
      "forEdges rec n es inp (push b a s') = Some (r, s1)"
proof (cases "Edge.target e = n")
  case False
  with assms show ?thesis by (intro skip) simp_all
next
  case True
  then obtain r' s' where c: "rec (Edge.source e) s = Some (r', s')"
    using assms by (auto split: option.splits)
  show ?thesis
  proof (cases r')
    case (Inl f)
    with assms True c show ?thesis by (intro fault [of f]) simp_all
  next
    case (Inr entry)
    show ?thesis
    proof (cases "handleInput entry (sourceHandle e)")
      case None
      with assms True c Inr show ?thesis by (intro none [of entry s']) simp_all
    next
      case (Some a)
      note a = this
      show ?thesis
      proof (cases "inp (targetHandle e)")
        case None
        with assms True c Inr a show ?thesis by (intro set [of entry s' a]) simp_all
      next
        case (Some b)
        with assms True c Inr a show ?thesis by (intro push [of entry s' a b]) simp_all
      qed
    qed
  qed
qed

lemma forEdges_rel:
  assumes rec: "\<And>m s r s1. rec m s = Some (r, s1) \<Longrightarrow> R s s1"
    and refl: "\<And>s. R s s"
    and trans: "\<And>a b c. R a b \<Longrightarrow> R b c \<Longrightarrow> R a c"
    and pushed: "\<And>b a s. R s (push b a s)"
    and run: "forEdges rec n es inp s = Some (r, s1)"
  shows "R s s1"
  using run
proof (induction es arbitrary: inp s)
  case Nil
  then show ?case using refl by simp
next
  case (Cons e es)
  from Cons.prems show ?case
  proof (cases rule: forEdges_step)
    case skip
    from Cons.IH [OF skip(2)] show ?thesis .
  next
    case (fault f)
    from rec [OF fault(2)] show ?thesis .
  next
    case (none entry s')
    from rec [OF none(2)] Cons.IH [OF none(4)] show ?thesis by (rule trans)
  next
    case (set entry s' a)
    from rec [OF set(2)] Cons.IH [OF set(5)] show ?thesis by (rule trans)
  next
    case (push entry s' a b)
    from pushed [of s' b a] Cons.IH [OF push(5)] have "R s' s1" by (rule trans)
    with rec [OF push(2)] show ?thesis by (rule trans)
  qed
qed

lemma forNodes_rel:
  assumes rec: "\<And>m s r s1. rec m s = Some (r, s1) \<Longrightarrow> R s s1"
    and refl: "\<And>s. R s s"
    and trans: "\<And>a b c. R a b \<Longrightarrow> R b c \<Longrightarrow> R a c"
    and run: "forNodes rec ns s = Some (r, s1)"
  shows "R s s1"
  using run
proof (induction ns arbitrary: s)
  case Nil
  then show ?case using refl by simp
next
  case (Cons m ns)
  then obtain r' s' where c: "rec m s = Some (r', s')"
    by (auto split: option.splits)
  have R1: "R s s'" using rec [OF c] .
  show ?case
  proof (cases r')
    case (Inl x)
    then show ?thesis using Cons.prems c R1 by simp
  next
    case (Inr entry)
    then have "forNodes rec ns s' = Some (r, s1)"
      using Cons.prems c by simp
    from Cons.IH [OF this] R1 show ?thesis by (rule trans [rotated])
  qed
qed

lemma forEdges_untargeted:
  "forEdges rec n es inp s = Some (Inr inp', s1) \<Longrightarrow> inp p = None
     \<Longrightarrow> \<forall>e\<in>set es. Edge.target e = n \<longrightarrow> targetHandle e \<noteq> p \<Longrightarrow> inp' p = None"
proof (induction es arbitrary: inp s)
  case Nil
  then show ?case by simp
next
  case (Cons e es)
  have rest: "\<forall>e\<in>set es. Edge.target e = n \<longrightarrow> targetHandle e \<noteq> p"
    using Cons.prems(3) by simp
  from Cons.prems(1) show ?case
  proof (cases rule: forEdges_step)
    case skip
    from Cons.IH [OF skip(2) Cons.prems(2) rest] show ?thesis .
  next
    case (fault f)
    then show ?thesis by simp
  next
    case (none entry s')
    from Cons.IH [OF none(4) Cons.prems(2) rest] show ?thesis .
  next
    case (set entry s' a)
    have "targetHandle e \<noteq> p" using Cons.prems(3) set(1) by simp
    then have "(inp(targetHandle e \<mapsto> a)) p = None" using Cons.prems(2) by simp
    from Cons.IH [OF set(5) this rest] show ?thesis .
  next
    case (push entry s' a b)
    from Cons.IH [OF push(5) Cons.prems(2) rest] show ?thesis .
  qed
qed

lemma forEdges_fault:
  assumes "\<And>m s f s1. rec m s = Some (Inl f, s1) \<Longrightarrow> P f"
    and "forEdges rec n es inp s = Some (Inl f, s1)"
  shows "P f"
  using assms(2)
proof (induction es arbitrary: inp s)
  case Nil
  then show ?case by simp
next
  case (Cons e es)
  from Cons.prems show ?case
  proof (cases rule: forEdges_step)
    case (fault f')
    then show ?thesis using assms(1) by simp
  qed (use Cons.IH in blast)+
qed

section \<open>Which nodes a call adds to the cache\<close>

lemma loadCache_cases:
  assumes "loadCache fuel nodes edges n s = Some (r, s1)"
  obtains
    (cached) fuel' entry where "fuel = Suc fuel'" "pipeCache s n = Some entry" "r = Inr entry" "s1 = s"
  | (unknown) fuel' where "fuel = Suc fuel'" "pipeCache s n = None" "map_of nodes n = None"
      "r = Inl (TypeError ''Cannot read properties of undefined'')" "s1 = s"
  | (thrown) fuel' node e where "fuel = Suc fuel'" "pipeCache s n = None" "map_of nodes n = Some node"
      "forEdges (loadCache fuel' nodes edges) n edges Map.empty s = Some (Inl e, s1)" "r = Inl e"
  | (stored) fuel' node inputData s' entry s2 where "fuel = Suc fuel'" "pipeCache s n = None"
      "map_of nodes n = Some node"
      "forEdges (loadCache fuel' nodes edges) n edges Map.empty s = Some (Inr inputData, s')"
      "calcCache n node inputData s' = (entry, s2)" "r = Inr entry"
      "s1 = s2\<lparr>pipeCache := (pipeCache s2)(n \<mapsto> entry)\<rparr>"
proof (cases fuel)
  case 0
  with assms show ?thesis by simp
next
  case (Suc fuel')
  show ?thesis
  proof (cases "pipeCache s n")
    case (Some entry)
    with assms Suc show ?thesis by (intro cached [of fuel' entry]) simp_all
  next
    case None
    note nc = this
    show ?thesis
    proof (cases "map_of nodes n")
      case None
      with assms Suc nc show ?thesis by (intro unknown [of fuel']) simp_all
    next
      case (Some node)
      then obtain r' s' where l: "forEdges (loadCache fuel' nodes edges) n edges Map.empty s = Some (r', s')"
        using assms Suc nc by (auto split: option.splits)
      show ?thesis
      proof (cases r')
        case (Inl e)
        with assms Suc nc Some l show ?thesis by (intro thrown [of fuel' node e]) simp_all
      next
        case (Inr inputData)
        obtain entry s2 where c: "calcCache n node inputData s' = (entry, s2)"
          by (cases "calcCache n node inputData s'")
        with assms Suc nc Some l Inr show ?thesis
          by (intro stored [of fuel' node inputData s' entry s2]) simp_all
      qed
    qed
  qed
qed

lemma loadCache_result_cached:
  assumes "loadCache fuel nodes edges n s = Some (Inr entry, s1)"
  shows "pipeCache s1 n = Some entry"
  using assms by (cases rule: loadCache_cases) simp_all

lemma loadCache_dom:
  "loadCache fuel nodes edges n s = Some (r, s1) \<Longrightarrow>
     dom (pipeCache s) \<subseteq> dom (pipeCache s1) \<and>
     dom (pipeCache s1) \<subseteq> dom (pipeCache s) \<union> dom (map_of nodes)"
proof (induction fuel arbitrary: n s r s1)
  case 0
  then show ?case by simp
next
  case (Suc fuel)
  let ?R = "\<lambda>s s1. dom (pipeCache s) \<subseteq> dom (pipeCache s1) \<and>
     dom (pipeCache s1) \<subseteq> dom (pipeCache s) \<union> dom (map_of nodes)"
  have loop: "?R s0 s0'" if "forEdges (loadCache fuel nodes edges) n edges Map.empty s0 = Some (r0, s0')"
    for s0 r0 s0'
  proof (rule forEdges_rel [where R = ?R, OF _ _ _ _ that])
    show "?R a b" if "loadCache fuel nodes edges m a = Some (r, b)" for m a r b
      using Suc.IH [OF that] .
    show "?R a a" for a by blast
    show "?R a c" if "?R a b" "?R b c" for a b c using that by blast
    show "?R a (push x y a)" for x y a by simp
  qed
  from Suc.prems show ?case
  proof (cases rule: loadCache_cases)
    case (cached fuel' entry)
    then show ?thesis by simp
  next
    case (unknown fuel')
    then show ?thesis by simp
  next
    case (thrown fuel' node e)
    then have "forEdges (loadCache fuel nodes edges) n edges Map.empty s = Some (Inl e, s1)"
      by simp
    from loop [OF this] show ?thesis .
  next
    case (stored fuel' node inputData s' entry s2)
    then have "forEdges (loadCache fuel nodes edges) n edges Map.empty s = Some (Inr inputData, s')"
      by simp
    from loop [OF this] have A: "dom (pipeCache s) \<subseteq> dom (pipeCache s')"
      and B: "dom (pipeCache s') \<subseteq> dom (pipeCache s) \<union> dom (map_of nodes)"
      by simp_all
    have "pipeCache s2 = pipeCache s'"
      using calcCache_frame [OF stored(5)] by simp
    then have C: "dom (pipeCache s1) = insert n (dom (pipeCache s'))"
      using stored(7) by simp
    have D: "n \<in> dom (map_of nodes)"
      using stored(3) by blast
    show ?thesis
      unfolding C using A B D by (simp add: subset_insertI2)
  qed
qed

lemma loadCache_fault:
  "loadCache fuel nodes edges n s = Some (Inl f, s1) \<Longrightarrow>
     f = TypeError ''Cannot read properties of undefined''"
proof (induction fuel arbitrary: n s f s1)
  case 0
  then show ?case by simp
next
  case (Suc fuel)
  from Suc.prems show ?case
  proof (cases rule: loadCache_cases)
    case (thrown fuel' node e)
    then have "forEdges (loadCache fuel nodes edges) n edges Map.empty s = Some (Inl f, s1)"
      by simp
    with Suc.IH show ?thesis by (rule forEdges_fault)
  qed simp_all
qed

lemma forEdges_sources_cached:
  assumes rec: "\<And>m s r s1. rec m s = Some (r, s1) \<Longrightarrow> dom (pipeCache s) \<subseteq> dom (pipeCache s1)"
    and res: "\<And>m s entry s1. rec m s = Some (Inr entry, s1) \<Longrightarrow> m \<in> dom (pipeCache s1)"
    and run: "forEdges rec n es inp s = Some (Inr inp', s1)"
    and e: "e \<in> set es" "Edge.target e = n"
  shows "Edge.source e \<in> dom (pipeCache s1)"
  using run e(1)
proof (induction es arbitrary: inp s)
  case Nil
  then show ?case by simp
next
  case (Cons e' es)
  let ?R = "\<lambda>s s1. dom (pipeCache s) \<subseteq> dom (pipeCache s1)"
  have tail: "?R s0 s1" if "forEdges rec n es i0 s0 = Some (Inr inp', s1)" for i0 s0
  proof (rule forEdges_rel [where R = ?R, OF _ _ _ _ that])
    show "?R a b" if "rec m a = Some (r, b)" for m a r b
      using rec [OF that] .
    show "?R a a" for a by blast
    show "?R a c" if "?R a b" "?R b c" for a b c using that by blast
    show "?R a (push x y a)" for x y a by simp
  qed
  show ?case
  proof (cases "Edge.target e' = n")
    case False
    with Cons e(2) show ?thesis by auto
  next
    case True
    then obtain entry s' where c: "rec (Edge.source e') s = Some (Inr entry, s')"
      using Cons.prems(1) by (auto split: option.splits sum.splits)
    then obtain i0 s0 where t: "forEdges rec n es i0 s0 = Some (Inr inp', s1)"
      and s0: "pipeCache s0 = pipeCache s'"
      using Cons.prems(1) True by (auto split: option.splits)
    show ?thesis
    proof (cases "e = e'")
      case True
      then show ?thesis using res [OF c] tail [OF t] s0 by auto
    next
      case False
      then show ?thesis using Cons.IH [OF t] Cons.prems(2) by simp
    qed
  qed
qed

text \<open>
  A set of nodes each of which has an edge from a node of the set, none of them in the
  cache: no call that returns puts one of them into the cache.
\<close>

lemma loadCache_avoids:
  assumes S: "\<forall>x\<in>S. \<exists>e\<in>set edges. Edge.target e = x \<and> Edge.source e \<in> S"
  shows "loadCache fuel nodes edges n s = Some (r, s1) \<Longrightarrow> S \<inter> dom (pipeCache s) = {}
     \<Longrightarrow> S \<inter> dom (pipeCache s1) = {}"
proof (induction fuel arbitrary: n s r s1)
  case 0
  then show ?case by simp
next
  case (Suc fuel)
  let ?R = "\<lambda>s s1. S \<inter> dom (pipeCache s) = {} \<longrightarrow> S \<inter> dom (pipeCache s1) = {}"
  have loop: "?R s0 s0'" if "forEdges (loadCache fuel nodes edges) n edges Map.empty s0 = Some (r0, s0')"
    for s0 r0 s0'
  proof (rule forEdges_rel [where R = ?R, OF _ _ _ _ that])
    show "?R a b" if "loadCache fuel nodes edges m a = Some (r, b)" for m a r b
      using Suc.IH [OF that] by blast
    show "?R a a" for a by blast
    show "?R a c" if "?R a b" "?R b c" for a b c using that by blast
    show "?R a (push x y a)" for x y a by simp
  qed
  from Suc.prems(1) show ?case
  proof (cases rule: loadCache_cases)
    case (cached fuel' entry)
    then show ?thesis using Suc.prems(2) by simp
  next
    case (unknown fuel')
    then show ?thesis using Suc.prems(2) by simp
  next
    case (thrown fuel' node e)
    then have "forEdges (loadCache fuel nodes edges) n edges Map.empty s = Some (Inl e, s1)"
      by simp
    from loop [OF this] show ?thesis using Suc.prems(2) by simp
  next
    case (stored fuel' node inputData s' entry s2)
    then have l: "forEdges (loadCache fuel nodes edges) n edges Map.empty s = Some (Inr inputData, s')"
      by simp
    have d: "S \<inter> dom (pipeCache s') = {}"
      using loop [OF l] Suc.prems(2) by simp
    have nS: "n \<notin> S"
    proof
      assume "n \<in> S"
      then obtain e where e: "e \<in> set edges" "Edge.target e = n" "Edge.source e \<in> S"
        using S by blast
      have "Edge.source e \<in> dom (pipeCache s')"
      proof (rule forEdges_sources_cached [OF _ _ l e(1,2)])
        show "dom (pipeCache a) \<subseteq> dom (pipeCache b)"
          if "loadCache fuel nodes edges m a = Some (r, b)" for m a r b
          using loadCache_dom [OF that] by blast
        show "m \<in> dom (pipeCache b)"
          if "loadCache fuel nodes edges m a = Some (Inr entry, b)" for m a entry b
          using loadCache_result_cached [OF that] by blast
      qed
      with d e(3) show False by blast
    qed
    have "pipeCache s2 = pipeCache s'"
      using calcCache_frame [OF stored(5)] by simp
    then have C: "dom (pipeCache s1) = insert n (dom (pipeCache s'))"
      using stored(7) by simp
    show ?thesis
      unfolding C using d nS by simp
  qed
qed

lemma forEdges_dangling:
  assumes keep: "\<And>m s r s1. rec m s = Some (r, s1) \<Longrightarrow> pipeCache s d = None \<Longrightarrow> pipeCache s1 d = None"
    and never: "\<And>s entry s1. pipeCache s d = None \<Longrightarrow> rec d s \<noteq> Some (Inr entry, s1)"
    and e: "Edge.target e = n" "Edge.source e = d"
  shows "forEdges rec n es inp s = Some (Inr inp', s1) \<Longrightarrow> e \<in> set es
     \<Longrightarrow> pipeCache s d = None \<Longrightarrow> False"
proof (induction es arbitrary: inp s)
  case Nil
  then show ?case by simp
next
  case (Cons e' es)
  from Cons.prems(1) show ?case
  proof (cases rule: forEdges_step)
    case skip
    then have "e \<in> set es" using Cons.prems(2) e(1) by auto
    from Cons.IH [OF skip(2) this Cons.prems(3)] show ?thesis .
  next
    case (fault f)
    then show ?thesis by simp
  next
    case (none entry s')
    then have ne: "e' \<noteq> e" using never [OF Cons.prems(3)] e(2) by auto
    then have "e \<in> set es" using Cons.prems(2) by auto
    from Cons.IH [OF none(4) this keep [OF none(2) Cons.prems(3)]] show ?thesis .
  next
    case (set entry s' a)
    then have ne: "e' \<noteq> e" using never [OF Cons.prems(3)] e(2) by auto
    then have "e \<in> set es" using Cons.prems(2) by auto
    from Cons.IH [OF set(5) this keep [OF set(2) Cons.prems(3)]] show ?thesis .
  next
    case (push entry s' a b)
    then have ne: "e' \<noteq> e" using never [OF Cons.prems(3)] e(2) by auto
    then have "e \<in> set es" using Cons.prems(2) by auto
    moreover have "pipeCache (push b a s') d = None"
      using keep [OF push(2) Cons.prems(3)] by simp
    ultimately show ?thesis using Cons.IH [OF push(5)] by blast
  qed
qed

section \<open>Every node that a call adds is upstream of the node of the call\<close>

lemma upstream_mono: "D \<subseteq> E \<Longrightarrow> upstream edges E \<subseteq> upstream edges D"
  by (auto simp: upstream_def)

lemma upstream_rtrancl_mono:
  "D \<subseteq> E \<Longrightarrow> (a, b) \<in> (upstream edges E)\<^sup>* \<Longrightarrow> (a, b) \<in> (upstream edges D)\<^sup>*"
  using rtrancl_mono [OF upstream_mono] by blast

lemma upstream_rtrancl_start:
  "(a, b) \<in> (upstream edges D)\<^sup>* \<Longrightarrow> b \<notin> D \<Longrightarrow> a \<notin> D"
  by (erule converse_rtranclE) (auto simp: upstream_def)

lemma forEdges_reach:
  assumes rec: "\<And>m s r s1 x. rec m s = Some (r, s1) \<Longrightarrow>
            dom (pipeCache s) \<subseteq> dom (pipeCache s1) \<and>
            (x \<in> dom (pipeCache s1) \<longrightarrow> x \<notin> dom (pipeCache s) \<longrightarrow>
               (m, x) \<in> (upstream edges (dom (pipeCache s)))\<^sup>*)"
    and run: "forEdges rec n es inp s = Some (r, s1)"
    and x: "x \<in> dom (pipeCache s1)" "x \<notin> dom (pipeCache s)"
  shows "\<exists>e\<in>set es. Edge.target e = n \<and> Edge.source e \<notin> dom (pipeCache s) \<and>
           (Edge.source e, x) \<in> (upstream edges (dom (pipeCache s)))\<^sup>*"
  using run x(2)
proof (induction es arbitrary: inp s)
  case Nil
  then show ?case using x(1) by simp
next
  case (Cons e es)
  show ?case
  proof (cases "Edge.target e = n")
    case False
    with Cons show ?thesis by simp
  next
    case True
    then obtain r' s' where c: "rec (Edge.source e) s = Some (r', s')"
      using Cons.prems(1) by (auto split: option.splits)
    have sub: "dom (pipeCache s) \<subseteq> dom (pipeCache s')"
      using rec [OF c] by blast
    show ?thesis
    proof (cases "x \<in> dom (pipeCache s')")
      case True
      then have p: "(Edge.source e, x) \<in> (upstream edges (dom (pipeCache s)))\<^sup>*"
        using rec [OF c, of x] Cons.prems(2) by blast
      then have "Edge.source e \<notin> dom (pipeCache s)"
        using Cons.prems(2) by (rule upstream_rtrancl_start)
      with p \<open>Edge.target e = n\<close> show ?thesis by auto
    next
      case False
      then have "r' \<noteq> Inl f" for f
        using Cons.prems(1) c \<open>Edge.target e = n\<close> x(1) by auto
      then obtain entry where r': "r' = Inr entry" by (cases r') auto
      obtain i0 s0 where t: "forEdges rec n es i0 s0 = Some (r, s1)"
        and s0: "pipeCache s0 = pipeCache s'"
        using Cons.prems(1) \<open>Edge.target e = n\<close> c r' by (auto split: option.splits)
      from False s0 have "x \<notin> dom (pipeCache s0)" by simp
      from Cons.IH [OF t this] obtain e' where e': "e' \<in> set es" "Edge.target e' = n"
        "Edge.source e' \<notin> dom (pipeCache s')"
        "(Edge.source e', x) \<in> (upstream edges (dom (pipeCache s')))\<^sup>*"
        using s0 by auto
      have "Edge.source e' \<notin> dom (pipeCache s)"
        using e'(3) sub by blast
      moreover have "(Edge.source e', x) \<in> (upstream edges (dom (pipeCache s)))\<^sup>*"
        using upstream_rtrancl_mono [OF sub e'(4)] .
      ultimately show ?thesis using e'(1,2) by auto
    qed
  qed
qed

lemma loadCache_reach:
  "loadCache fuel nodes edges n s = Some (r, s1) \<Longrightarrow> x \<in> dom (pipeCache s1)
     \<Longrightarrow> x \<notin> dom (pipeCache s) \<Longrightarrow> (n, x) \<in> (upstream edges (dom (pipeCache s)))\<^sup>*"
proof (induction fuel arbitrary: n s r s1 x)
  case 0
  then show ?case by simp
next
  case (Suc fuel)
  have loop: "(n, y) \<in> (upstream edges (dom (pipeCache s)))\<^sup>*"
    if run: "forEdges (loadCache fuel nodes edges) n edges Map.empty s = Some (r0, s0')"
      and y: "y \<in> dom (pipeCache s0')" "y \<notin> dom (pipeCache s)" and n: "pipeCache s n = None"
    for r0 s0' y
  proof -
    have "\<exists>e\<in>set edges. Edge.target e = n \<and> Edge.source e \<notin> dom (pipeCache s) \<and>
           (Edge.source e, y) \<in> (upstream edges (dom (pipeCache s)))\<^sup>*"
    proof (rule forEdges_reach [OF _ run y])
      show "dom (pipeCache a) \<subseteq> dom (pipeCache b) \<and>
            (z \<in> dom (pipeCache b) \<longrightarrow> z \<notin> dom (pipeCache a) \<longrightarrow>
               (m, z) \<in> (upstream edges (dom (pipeCache a)))\<^sup>*)"
        if "loadCache fuel nodes edges m a = Some (r, b)" for m a r b z
        using Suc.IH [OF that] loadCache_dom [OF that] by blast
    qed
    then obtain e where e: "e \<in> set edges" "Edge.target e = n" "Edge.source e \<notin> dom (pipeCache s)"
      "(Edge.source e, y) \<in> (upstream edges (dom (pipeCache s)))\<^sup>*"
      by blast
    have "(n, Edge.source e) \<in> upstream edges (dom (pipeCache s))"
      using e(1-3) n by (auto simp: upstream_def)
    then show ?thesis using e(4) by (rule converse_rtrancl_into_rtrancl)
  qed
  from Suc.prems(1) show ?case
  proof (cases rule: loadCache_cases)
    case (cached fuel' entry)
    then show ?thesis using Suc.prems(2,3) by simp
  next
    case (unknown fuel')
    then show ?thesis using Suc.prems(2,3) by simp
  next
    case (thrown fuel' node e)
    then have "forEdges (loadCache fuel nodes edges) n edges Map.empty s = Some (Inl e, s1)"
      by simp
    from loop [OF this Suc.prems(2,3) thrown(2)] show ?thesis .
  next
    case (stored fuel' node inputData s' entry s2)
    then have l: "forEdges (loadCache fuel nodes edges) n edges Map.empty s = Some (Inr inputData, s')"
      by simp
    have "pipeCache s2 = pipeCache s'"
      using calcCache_frame [OF stored(5)] by simp
    then have C: "dom (pipeCache s1) = insert n (dom (pipeCache s'))"
      using stored(7) by simp
    show ?thesis
    proof (cases "x = n")
      case True
      then show ?thesis by simp
    next
      case False
      then have "x \<in> dom (pipeCache s')"
        using Suc.prems(2) unfolding C by simp
      from loop [OF l this Suc.prems(3) stored(2)] show ?thesis .
    qed
  qed
qed

text \<open>The loop of a node that has no entry does not give that node an entry.\<close>

lemma forEdges_not_self:
  assumes n: "pipeCache s n = None"
    and run: "forEdges (loadCache fuel nodes edges) n edges Map.empty s = Some (r, s1)"
  shows "pipeCache s1 n = None"
proof (rule ccontr)
  assume "pipeCache s1 n \<noteq> None"
  then have n1: "n \<in> dom (pipeCache s1)" by blast
  have n0: "n \<notin> dom (pipeCache s)" using n by blast
  let ?D = "dom (pipeCache s)"
  let ?S = "{x. (x, n) \<in> (upstream edges ?D)\<^sup>+}"
  have "\<exists>e\<in>set edges. Edge.target e = n \<and> Edge.source e \<notin> ?D \<and>
           (Edge.source e, n) \<in> (upstream edges ?D)\<^sup>*"
  proof (rule forEdges_reach [OF _ run n1 n0])
    show "dom (pipeCache a) \<subseteq> dom (pipeCache b) \<and>
          (z \<in> dom (pipeCache b) \<longrightarrow> z \<notin> dom (pipeCache a) \<longrightarrow>
             (m, z) \<in> (upstream edges (dom (pipeCache a)))\<^sup>*)"
      if "loadCache fuel nodes edges m a = Some (r, b)" for m a r b z
      using loadCache_reach [OF that] loadCache_dom [OF that] by blast
  qed
  then obtain e where e: "e \<in> set edges" "Edge.target e = n" "Edge.source e \<notin> ?D"
    "(Edge.source e, n) \<in> (upstream edges ?D)\<^sup>*"
    by blast
  have "(n, Edge.source e) \<in> upstream edges ?D"
    using e(1-3) n0 by (auto simp: upstream_def)
  then have cyc: "(n, n) \<in> (upstream edges ?D)\<^sup>+"
    using e(4) by (rule rtrancl_into_trancl2)
  have sup: "\<forall>x\<in>?S. \<exists>e\<in>set edges. Edge.target e = x \<and> Edge.source e \<in> ?S"
  proof
    fix x assume "x \<in> ?S"
    then obtain z where z: "(x, z) \<in> upstream edges ?D" "(z, n) \<in> (upstream edges ?D)\<^sup>*"
      by (auto dest: tranclD)
    from z(2) cyc have "(z, n) \<in> (upstream edges ?D)\<^sup>+"
      by (auto dest: rtranclD)
    with z(1) show "\<exists>e\<in>set edges. Edge.target e = x \<and> Edge.source e \<in> ?S"
      by (auto simp: upstream_def)
  qed
  have dis: "?S \<inter> ?D = {}"
    by (auto dest!: tranclD simp: upstream_def)
  let ?R = "\<lambda>s s1. ?S \<inter> dom (pipeCache s) = {} \<longrightarrow> ?S \<inter> dom (pipeCache s1) = {}"
  have "?R s s1"
  proof (rule forEdges_rel [where R = ?R, OF _ _ _ _ run])
    show "?R a b" if "loadCache fuel nodes edges m a = Some (r, b)" for m a r b
      using loadCache_avoids [OF sup that] by blast
    show "?R a a" for a by blast
    show "?R a c" if "?R a b" "?R b c" for a b c using that by blast
    show "?R a (push x y a)" for x y a by simp
  qed
  with dis have "?S \<inter> dom (pipeCache s1) = {}" by blast
  with cyc n1 show False by blast
qed

section \<open>Mapper calls\<close>

lemma extends_refl: "extends s s"
  by (simp add: extends_def)

lemma extends_push: "extends s (push b a s)"
  by (simp add: extends_def)

lemma append_new_calls:
  assumes "A \<subseteq> B" "B \<subseteq> C" "fst ` set new1 \<subseteq> B - A" "fst ` set new2 \<subseteq> C - B"
    "distinct (map fst new1)" "distinct (map fst new2)"
  shows "distinct (map fst (new1 @ new2)) \<and> fst ` set (new1 @ new2) \<subseteq> C - A"
proof -
  have "fst ` set new1 \<inter> fst ` set new2 = {}"
    using assms(3,4) by blast
  then have "distinct (map fst (new1 @ new2))"
    using assms(5,6) by simp
  moreover have "fst ` set (new1 @ new2) \<subseteq> C - A"
    using assms(1-4) by (simp add: image_Un) blast
  ultimately show ?thesis ..
qed

lemma new_calls_notin: "A \<subseteq> B - C \<Longrightarrow> x \<notin> B \<Longrightarrow> x \<notin> A"
  by blast

lemma extends_trans:
  assumes "extends a b" "extends b c"
  shows "extends a c"
proof -
  from assms(1) obtain new1 where 1: "dom (pipeCache a) \<subseteq> dom (pipeCache b)"
    "invoked b = invoked a @ new1" "distinct (map fst new1)"
    "fst ` set new1 \<subseteq> dom (pipeCache b) - dom (pipeCache a)"
    unfolding extends_def by blast
  from assms(2) obtain new2 where 2: "dom (pipeCache b) \<subseteq> dom (pipeCache c)"
    "invoked c = invoked b @ new2" "distinct (map fst new2)"
    "fst ` set new2 \<subseteq> dom (pipeCache c) - dom (pipeCache b)"
    unfolding extends_def by blast
  have "invoked c = invoked a @ (new1 @ new2)"
    using 1(2) 2(2) by simp
  moreover have "distinct (map fst (new1 @ new2)) \<and>
      fst ` set (new1 @ new2) \<subseteq> dom (pipeCache c) - dom (pipeCache a)"
    using 1(1) 2(1) 1(4) 2(4) 1(3) 2(3) by (rule append_new_calls)
  moreover have "dom (pipeCache a) \<subseteq> dom (pipeCache c)"
    using 1(1) 2(1) by blast
  ultimately show ?thesis
    unfolding extends_def by blast
qed

lemma loadCache_extends:
  "loadCache fuel nodes edges n s = Some (r, s1) \<Longrightarrow> extends s s1"
proof (induction fuel arbitrary: n s r s1)
  case 0
  then show ?case by simp
next
  case (Suc fuel)
  have loop: "extends s0 s0'" if "forEdges (loadCache fuel nodes edges) n edges Map.empty s0 = Some (r0, s0')"
    for s0 r0 s0'
    using Suc.IH extends_refl extends_trans extends_push that by (rule forEdges_rel)
  from Suc.prems show ?case
  proof (cases rule: loadCache_cases)
    case (cached fuel' entry)
    then show ?thesis by (simp add: extends_refl)
  next
    case (unknown fuel')
    then show ?thesis by (simp add: extends_refl)
  next
    case (thrown fuel' node e)
    then have "forEdges (loadCache fuel nodes edges) n edges Map.empty s = Some (Inl e, s1)"
      by simp
    from loop [OF this] show ?thesis .
  next
    case (stored fuel' node inputData s' entry s2)
    then have l: "forEdges (loadCache fuel nodes edges) n edges Map.empty s = Some (Inr inputData, s')"
      by simp
    have n': "pipeCache s' n = None"
      using forEdges_not_self [OF stored(2) l] .
    have fr: "pipeCache s2 = pipeCache s'"
      "invoked s2 = invoked s' \<or> (\<exists>v. invoked s2 = invoked s' @ [(n, v)])"
      using calcCache_frame [OF stored(5)] by simp_all
    have "extends s' s1"
      unfolding extends_def using fr n' stored(7) by auto
    with loop [OF l] show ?thesis by (rule extends_trans)
  qed
qed

lemma forEdges_extends:
  assumes "forEdges (loadCache fuel nodes edges) n es inp s = Some (r, s1)"
  shows "extends s s1"
proof (rule forEdges_rel [where R = extends, OF _ extends_refl extends_trans extends_push assms])
  show "extends a b" if "loadCache fuel nodes edges m a = Some (r, b)" for m a r b
    using that by (rule loadCache_extends)
qed

lemma forNodes_extends:
  assumes "forNodes (loadCache fuel nodes edges) ns s = Some (r, s1)"
  shows "extends s s1"
proof (rule forNodes_rel [where R = extends, OF _ extends_refl extends_trans assms])
  show "extends a b" if "loadCache fuel nodes edges m a = Some (r, b)" for m a r b
    using that by (rule loadCache_extends)
qed

lemma forNodes_cached:
  assumes "forNodes (loadCache fuel nodes edges) ns s = Some (Inr u, s1)"
  shows "set ns \<subseteq> dom (pipeCache s1)"
  using assms
proof (induction ns arbitrary: s)
  case Nil
  then show ?case by simp
next
  case (Cons m ns)
  then obtain entry s' where c: "loadCache fuel nodes edges m s = Some (Inr entry, s')"
    and t: "forNodes (loadCache fuel nodes edges) ns s' = Some (Inr u, s1)"
    by (auto split: option.splits sum.splits)
  have "m \<in> dom (pipeCache s')"
    using loadCache_result_cached [OF c] by blast
  moreover have "dom (pipeCache s') \<subseteq> dom (pipeCache s1)"
    using forNodes_extends [OF t] by (simp add: extends_def)
  ultimately show ?case using Cons.IH [OF t] by auto
qed

lemma forNodes_dom:
  assumes "forNodes (loadCache fuel nodes edges) ns s = Some (r, s1)"
  shows "dom (pipeCache s1) \<subseteq> dom (pipeCache s) \<union> dom (map_of nodes)"
proof -
  let ?R = "\<lambda>s s1. dom (pipeCache s1) \<subseteq> dom (pipeCache s) \<union> dom (map_of nodes)"
  show ?thesis
  proof (rule forNodes_rel [where R = ?R, OF _ _ _ assms])
    show "?R a b" if "loadCache fuel nodes edges m a = Some (r, b)" for m a r b
      using loadCache_dom [OF that] by blast
    show "?R a a" for a by blast
    show "?R a c" if "?R a b" "?R b c" for a b c using that by blast
  qed
qed

section \<open>Calls that return\<close>

lemma forEdges_returns:
  assumes "\<And>e s. e \<in> set es \<Longrightarrow> Edge.target e = n \<Longrightarrow>
             \<exists>entry s1. rec (Edge.source e) s = Some (Inr entry, s1)"
  shows "\<exists>inp' s1. forEdges rec n es inp s = Some (Inr inp', s1)"
  using assms
proof (induction es arbitrary: inp s)
  case Nil
  then show ?case by simp
next
  case (Cons e es)
  have tail: "\<exists>inp' s1. forEdges rec n es i0 s0 = Some (Inr inp', s1)" for i0 s0
    using Cons.IH Cons.prems by simp
  show ?case
  proof (cases "Edge.target e = n")
    case False
    then show ?thesis using tail by simp
  next
    case True
    then obtain entry s' where c: "rec (Edge.source e) s = Some (Inr entry, s')"
      using Cons.prems [of e s] by auto
    show ?thesis
      using True c tail by (simp split: option.splits)
  qed
qed

lemma forNodes_returns:
  assumes "\<And>m s. m \<in> set ns \<Longrightarrow> \<exists>entry s1. rec m s = Some (Inr entry, s1)"
  shows "\<exists>s1. forNodes rec ns s = Some (Inr (), s1)"
  using assms
proof (induction ns arbitrary: s)
  case Nil
  then show ?case by simp
next
  case (Cons m ns)
  obtain entry s' where c: "rec m s = Some (Inr entry, s')"
    using Cons.prems [of m s] by auto
  have "\<exists>s1. forNodes rec ns s' = Some (Inr (), s1)"
    using Cons.IH Cons.prems by simp
  then show ?case using c by simp
qed

lemma loadCache_returns:
  assumes rank: "\<forall>e\<in>set edges. rank (Edge.source e) < (rank (Edge.target e) :: nat)"
    and closed: "\<forall>e\<in>set edges. Edge.source e \<in> dom (map_of nodes)"
  shows "rank n < fuel \<Longrightarrow> n \<in> dom (map_of nodes) \<union> dom (pipeCache s)
     \<Longrightarrow> \<exists>entry s1. loadCache fuel nodes edges n s = Some (Inr entry, s1)"
proof (induction fuel arbitrary: n s)
  case 0
  then show ?case by simp
next
  case (Suc fuel)
  show ?case
  proof (cases "pipeCache s n")
    case (Some entry)
    then show ?thesis by simp
  next
    case None
    then obtain node where node: "map_of nodes n = Some node"
      using Suc.prems(2) by auto
    have "\<exists>inp' s1. forEdges (loadCache fuel nodes edges) n edges Map.empty s = Some (Inr inp', s1)"
    proof (rule forEdges_returns)
      fix e and s0 :: State
      assume e: "e \<in> set edges" "Edge.target e = n"
      then have "rank (Edge.source e) < fuel"
        using rank Suc.prems(1) by fastforce
      moreover have "Edge.source e \<in> dom (map_of nodes) \<union> dom (pipeCache s0)"
        using closed e(1) by blast
      ultimately show "\<exists>entry s1. loadCache fuel nodes edges (Edge.source e) s0 = Some (Inr entry, s1)"
        by (rule Suc.IH)
    qed
    then obtain inp' s' where l: "forEdges (loadCache fuel nodes edges) n edges Map.empty s = Some (Inr inp', s')"
      by blast
    obtain entry s2 where "calcCache n node inp' s' = (entry, s2)"
      by (cases "calcCache n node inp' s'")
    then show ?thesis using None node l by simp
  qed
qed

lemma recalculate_returns:
  assumes rank: "\<forall>e\<in>set edges. rank (Edge.source e) < (rank (Edge.target e) :: nat)"
    and closed: "\<forall>e\<in>set edges. Edge.source e \<in> fst ` set nodes"
  shows "\<exists>fuel s1. recalculate fuel nodes edges s = Some (Inr (), s1)"
proof (cases "pipeCacheValid s")
  case True
  then show ?thesis by (simp add: recalculate_def)
next
  case False
  let ?fuel = "Suc (Max (insert 0 (rank ` fst ` set nodes)))"
  let ?s = "s\<lparr>pipeCache := Map.empty\<rparr>"
  have d: "dom (map_of nodes) = fst ` set nodes"
    by (rule dom_map_of_conv_image_fst)
  have "\<exists>s1. forNodes (loadCache ?fuel nodes edges) (map fst nodes) ?s = Some (Inr (), s1)"
  proof (rule forNodes_returns)
    fix m and s0 :: State
    assume "m \<in> set (map fst nodes)"
    then have m: "m \<in> fst ` set nodes" by simp
    then have "rank m \<le> Max (insert 0 (rank ` fst ` set nodes))"
      by (intro Max_ge) auto
    then have "rank m < ?fuel" by simp
    moreover have "m \<in> dom (map_of nodes) \<union> dom (pipeCache s0)"
      using m d by blast
    ultimately show "\<exists>entry s1. loadCache ?fuel nodes edges m s0 = Some (Inr entry, s1)"
      using loadCache_returns [OF rank] closed d by blast
  qed
  then obtain s1 where "forNodes (loadCache ?fuel nodes edges) (map fst nodes) ?s = Some (Inr (), s1)"
    by blast
  then have "recalculate ?fuel nodes edges s = Some (Inr (), s1\<lparr>pipeCacheValid := True\<rparr>)"
    using False by (simp add: recalculate_def)
  then show ?thesis by blast
qed

lemma recalculate_dom:
  assumes "\<not> pipeCacheValid s" "recalculate fuel nodes edges s = Some (Inr (), s1)"
  shows "pipeCacheValid s1 \<and> dom (pipeCache s1) = fst ` set nodes"
proof -
  let ?s = "s\<lparr>pipeCache := Map.empty\<rparr>"
  obtain u s' where f: "forNodes (loadCache fuel nodes edges) (map fst nodes) ?s = Some (Inr u, s')"
    and s1: "s1 = s'\<lparr>pipeCacheValid := True\<rparr>"
    using assms by (auto simp: recalculate_def split: option.splits sum.splits)
  have "fst ` set nodes \<subseteq> dom (pipeCache s')"
    using forNodes_cached [OF f] by simp
  moreover have "dom (pipeCache s') \<subseteq> fst ` set nodes"
    using forNodes_dom [OF f] by (simp add: dom_map_of_conv_image_fst)
  ultimately show ?thesis using s1 by auto
qed

section \<open>Properties of the cache, of edge additions and of messages\<close>

lemmas example_defs =
  emptyState_def handleInfo_def edge_def textMapper_def textInputNode_def matchAll_def matchAllNode_def
  throwing_def throwingNode_def silent_def silentNode_def languageMapper_def languageNode_def aliasNodes_def aliasEdges_def
  danglingNodes_def danglingEdges_def chainNodes_def chainEdges_def singleNodes_def singleEdges_def noMatch_def noMatchNode_def emptyFedNodes_def emptyFedEdges_def entryError_def cachedInput_def cachedOutput_def calcCache_def missingInput_def isOptional_def handleInput_def
  push_def bundleValue_def recalculate_def

text \<open>
  C1. Memoization. A second \<open>loadCache\<close> of a node, with nothing changed in between,
  returns the same entry and leaves the whole state as it is, so the entry is the same
  by value and no mapper is called. In any sequence of \<open>loadCache\<close> calls the mappers
  called are those of distinct nodes, none of which had an entry before: between two
  resets of the cache the mapper of a node is called at most once. This holds from any
  state and for any outcome of the calls.
\<close>

theorem loadCache_memoization:
  "(loadCache fuel nodes edges n s = Some (Inr entry, s1) \<longrightarrow>
      loadCache (Suc fuel') nodes edges n s1 = Some (Inr entry, s1)) \<and>
   (forNodes (loadCache fuel nodes edges) ns s = Some (r, s2) \<longrightarrow>
      (\<exists>new. invoked s2 = invoked s @ new \<and> distinct (map fst new) \<and>
         fst ` set new \<inter> dom (pipeCache s) = {}))"
proof (intro conjI impI)
  assume "loadCache fuel nodes edges n s = Some (Inr entry, s1)"
  then have "pipeCache s1 n = Some entry"
    by (rule loadCache_result_cached)
  then show "loadCache (Suc fuel') nodes edges n s1 = Some (Inr entry, s1)"
    by simp
next
  assume "forNodes (loadCache fuel nodes edges) ns s = Some (r, s2)"
  then have "extends s s2" by (rule forNodes_extends)
  then obtain new where "invoked s2 = invoked s @ new" "distinct (map fst new)"
    "fst ` set new \<subseteq> dom (pipeCache s2) - dom (pipeCache s)"
    unfolding extends_def by blast
  then have "invoked s2 = invoked s @ new \<and> distinct (map fst new) \<and>
      fst ` set new \<inter> dom (pipeCache s) = {}"
    by blast
  then show "\<exists>new. invoked s2 = invoked s @ new \<and> distinct (map fst new) \<and>
      fst ` set new \<inter> dom (pipeCache s) = {}" ..
qed

theorem loadCache_memoization_witness:
  "\<exists>entry s1 s2.
     loadCache (Suc (Suc 0)) aliasNodes aliasEdges ''3'' emptyState = Some (Inr entry, s1) \<and>
     loadCache (Suc 0) aliasNodes aliasEdges ''3'' s1 = Some (Inr entry, s1) \<and>
     forNodes (loadCache (Suc (Suc 0)) aliasNodes aliasEdges) [''3'', ''3'', ''1''] emptyState = Some (Inr (), s2) \<and>
     distinct (map fst (invoked s2))"
proof -
  have "\<exists>entry s1. loadCache (Suc (Suc 0)) aliasNodes aliasEdges ''3'' emptyState = Some (Inr entry, s1)"
    by (simp add: example_defs)
  then obtain entry s1 where
    a: "loadCache (Suc (Suc 0)) aliasNodes aliasEdges ''3'' emptyState = Some (Inr entry, s1)"
    by blast
  have "\<exists>s2. forNodes (loadCache (Suc (Suc 0)) aliasNodes aliasEdges) [''3'', ''3'', ''1''] emptyState = Some (Inr (), s2)"
    by (simp add: example_defs)
  then obtain s2 where
    b: "forNodes (loadCache (Suc (Suc 0)) aliasNodes aliasEdges) [''3'', ''3'', ''1''] emptyState = Some (Inr (), s2)"
    by blast
  have e: "invoked emptyState = []"
    by (simp add: emptyState_def)
  from a b e show ?thesis
    using loadCache_memoization [of "Suc (Suc 0)" aliasNodes aliasEdges "''3''" emptyState entry s1 0
        "[''3'', ''3'', ''1'']" "Inr ()" s2]
    by auto
qed

text \<open>
  C2. Missing required input. For a node with an Ok pipe value, when the loop over the
  edges has built \<open>inputData\<close> and a declared input handle that is not optional has
  no array there or an empty one (as when no edge targets the handle), \<open>loadCache\<close>
  returns the error entry "Missing input", and the mapper of the node is not among the
  mappers called.
\<close>

theorem loadCache_missing_input:
  assumes "pipeCache s nodeID = None" and "map_of nodes nodeID = Some node"
    and "pipeValue node = OkPipe mapper"
    and "forEdges (loadCache fuel nodes edges) nodeID edges Map.empty s = Some (Inr inputData, s1)"
    and "handle \<in> set (Handles.target (handles node))" and "\<not> isOptional handle"
    and "(\<forall>e\<in>set edges. Edge.target e = nodeID \<longrightarrow> targetHandle e \<noteq> id' handle)
       \<or> inputData (id' handle) = None
       \<or> (\<exists>a. inputData (id' handle) = Some a \<and> arrays s1 a = [])"
  shows "\<exists>s2. loadCache (Suc fuel) nodes edges nodeID s =
            Some (Inr (ErrorCacheEntry inputData ''Missing input''), s2)
         \<and> nodeID \<notin> fst ` set (drop (length (invoked s)) (invoked s2))"
proof -
  have "inputData (id' handle) = None \<or> (\<exists>a. inputData (id' handle) = Some a \<and> arrays s1 a = [])"
  proof (cases "\<forall>e\<in>set edges. Edge.target e = nodeID \<longrightarrow> targetHandle e \<noteq> id' handle")
    case True
    have "Map.empty (id' handle) = None" by simp
    from forEdges_untargeted [OF assms(4) this True] show ?thesis ..
  next
    case False
    with assms(7) show ?thesis by simp
  qed
  with assms(5,6) have "missingInput (Handles.target (handles node)) inputData s1"
    unfolding missingInput_iff by (intro bexI [of _ handle] conjI)
  then have c: "calcCache nodeID node inputData s1 = (ErrorCacheEntry inputData ''Missing input'', s1)"
    using assms(3) by (rule calcCache_missing [rotated])
  let ?s2 = "s1\<lparr>pipeCache := (pipeCache s1)(nodeID \<mapsto> ErrorCacheEntry inputData ''Missing input'')\<rparr>"
  have r: "loadCache (Suc fuel) nodes edges nodeID s =
      Some (Inr (ErrorCacheEntry inputData ''Missing input''), ?s2)"
    using assms(1,2,4) c by simp
  have "extends s s1"
    using assms(4) by (rule forEdges_extends)
  then obtain new where new: "invoked s1 = invoked s @ new" "distinct (map fst new)"
    "fst ` set new \<subseteq> dom (pipeCache s1) - dom (pipeCache s)"
    unfolding extends_def by blast
  have "pipeCache s1 nodeID = None"
    using assms(1,4) by (rule forEdges_not_self)
  then have "nodeID \<notin> dom (pipeCache s1)"
    by (simp add: domIff)
  with new(3) have "nodeID \<notin> fst ` set new"
    by (rule new_calls_notin)
  then have "nodeID \<notin> fst ` set (drop (length (invoked s)) (invoked ?s2))"
    using new(1) by simp
  with r show ?thesis by (intro exI [of _ ?s2] conjI)
qed

theorem loadCache_missing_input_witness:
  "\<exists>s2. loadCache (Suc (Suc 0)) chainNodes chainEdges ''2'' emptyState =
          Some (Inr (ErrorCacheEntry Map.empty ''Missing input''), s2)
       \<and> ''2'' \<notin> fst ` set (drop (length (invoked emptyState)) (invoked s2))"
proof -
  have 1: "pipeCache emptyState ''2'' = None"
    by (simp add: emptyState_def)
  have 2: "map_of chainNodes ''2'' = Some matchAllNode"
    by (simp add: chainNodes_def)
  have 3: "pipeValue matchAllNode = OkPipe matchAll"
    by (simp add: matchAllNode_def)
  have "\<exists>s1. forEdges (loadCache (Suc 0) chainNodes chainEdges) ''2'' chainEdges Map.empty emptyState
      = Some (Inr Map.empty, s1)"
    by (simp add: example_defs)
  then obtain s1 where 4: "forEdges (loadCache (Suc 0) chainNodes chainEdges) ''2'' chainEdges Map.empty emptyState
      = Some (Inr Map.empty, s1)"
    by blast
  have 5: "handleInfo ''data-in'' None \<in> set (Handles.target (handles matchAllNode))"
    by (simp add: matchAllNode_def)
  have 6: "\<not> isOptional (handleInfo ''data-in'' None)"
    by (simp add: isOptional_def handleInfo_def)
  have 7: "(\<forall>e\<in>set chainEdges. Edge.target e = ''2'' \<longrightarrow> targetHandle e \<noteq> id' (handleInfo ''data-in'' None))
       \<or> Map.empty (id' (handleInfo ''data-in'' None)) = None
       \<or> (\<exists>a. Map.empty (id' (handleInfo ''data-in'' None)) = Some a \<and> arrays s1 a = [])"
    by simp
  show ?thesis
    using loadCache_missing_input [OF 1 2 3 4 5 6 7] .
qed

text \<open>
  C3. Implementation fault. For a node with an Ok pipe value whose input handles that
  are not optional all have a non-empty array, when the mapper throws, or returns an
  object without an entry for a declared output handle, \<open>loadCache\<close> returns the
  error entry with the fixed text "Error in node implementation", and \<open>console.log\<close>
  has written the fault: the thrown value, or the error that names the missing handle.
\<close>

theorem loadCache_implementation_fault:
  assumes "pipeCache s nodeID = None" and "map_of nodes nodeID = Some node"
    and "pipeValue node = OkPipe mapper"
    and "forEdges (loadCache fuel nodes edges) nodeID edges Map.empty s = Some (Inr inputData, s1)"
    and "\<forall>handle\<in>set (Handles.target (handles node)). \<not> isOptional handle \<longrightarrow>
           (\<exists>a. inputData (id' handle) = Some a \<and> arrays s1 a \<noteq> [])"
    and "(\<exists>e. mapper (bundleValue s1 inputData) = Inl e) \<or>
         (\<exists>out handle. mapper (bundleValue s1 inputData) = Inr out \<and>
            handle \<in> set (Handles.source (handles node)) \<and> map_of out (id' handle) = None)"
  shows "\<exists>s2 flt. loadCache (Suc fuel) nodes edges nodeID s =
            Some (Inr (ErrorCacheEntry inputData ''Error in node implementation''), s2)
         \<and> console s2 = console s1 @ [flt]
         \<and> (\<forall>e. mapper (bundleValue s1 inputData) = Inl e \<longrightarrow> flt = e)
         \<and> (\<forall>out. mapper (bundleValue s1 inputData) = Inr out \<longrightarrow>
               (\<exists>handle\<in>set (Handles.source (handles node)). map_of out (id' handle) = None \<and>
                  flt = Error (''Missing output data for node '' @ nodeID @ '' handle '' @ id' handle)))"
proof -
  have nm: "\<not> missingInput (Handles.target (handles node)) inputData s1"
    unfolding missingInput_iff using assms(5) by fastforce
  let ?err = "ErrorCacheEntry inputData ''Error in node implementation''"
  have run: "loadCache (Suc fuel) nodes edges nodeID s =
      Some (Inr ?err, s2\<lparr>pipeCache := (pipeCache s2)(nodeID \<mapsto> ?err)\<rparr>)"
    if "calcCache nodeID node inputData s1 = (?err, s2)" for s2
    using assms(1,2,4) that by simp
  show ?thesis
  proof (cases "mapper (bundleValue s1 inputData)")
    case (Inl e)
    let ?s2 = "s1\<lparr>invoked := invoked s1 @ [(nodeID, bundleValue s1 inputData)], console := console s1 @ [e]\<rparr>"
    let ?s3 = "?s2\<lparr>pipeCache := (pipeCache ?s2)(nodeID \<mapsto> ?err)\<rparr>"
    have "calcCache nodeID node inputData s1 = (?err, ?s2)"
      using assms(3) nm Inl by (rule calcCache_throws)
    then have "loadCache (Suc fuel) nodes edges nodeID s = Some (Inr ?err, ?s3)"
      by (rule run)
    moreover have "console ?s3 = console s1 @ [e]" by simp
    ultimately show ?thesis using Inl by (intro exI [of _ ?s3] exI [of _ e]) simp
  next
    case (Inr out)
    then obtain handle where h: "handle \<in> set (Handles.source (handles node))"
      "map_of out (id' handle) = None"
      using assms(6) by auto
    from calcCache_incomplete [OF assms(3) nm Inr h]
    obtain s2 h' where c: "calcCache nodeID node inputData s1 = (?err, s2)"
      and l: "console s2 = console s1 @ [Error (''Missing output data for node '' @ nodeID @ '' handle '' @ id' h')]"
      and h': "h' \<in> set (Handles.source (handles node))" "map_of out (id' h') = None"
      by blast
    let ?s3 = "s2\<lparr>pipeCache := (pipeCache s2)(nodeID \<mapsto> ?err)\<rparr>"
    have "loadCache (Suc fuel) nodes edges nodeID s = Some (Inr ?err, ?s3)"
      using c by (rule run)
    moreover have "console ?s3 = console s1 @ [Error (''Missing output data for node '' @ nodeID @ '' handle '' @ id' h')]"
      using l by simp
    ultimately show ?thesis using Inr h'
      by (intro exI [of _ ?s3] exI [of _ "Error (''Missing output data for node '' @ nodeID @ '' handle '' @ id' h')"])
        auto
  qed
qed

theorem loadCache_implementation_fault_witness:
  "(\<exists>s2. loadCache (Suc 0) [(''5'', throwingNode)] [] ''5'' emptyState =
          Some (Inr (ErrorCacheEntry Map.empty ''Error in node implementation''), s2)
        \<and> console s2 = [Error ''boom'']) \<and>
   (\<exists>s2. loadCache (Suc 0) [(''6'', silentNode)] [] ''6'' emptyState =
          Some (Inr (ErrorCacheEntry Map.empty ''Error in node implementation''), s2)
        \<and> console s2 = [Error ''Missing output data for node 6 handle data-out''])"
proof -
  have 1: "pipeCache emptyState n = None" for n
    by (simp add: emptyState_def)
  have 4: "forEdges (loadCache 0 ns []) n [] Map.empty emptyState = Some (Inr Map.empty, emptyState)" for ns n
    by simp
  have c: "console emptyState = []"
    by (simp add: emptyState_def)
  have a2: "map_of [(''5'', throwingNode)] ''5'' = Some throwingNode" by simp
  have a3: "pipeValue throwingNode = OkPipe throwing" by (simp add: throwingNode_def)
  have a5: "\<forall>handle\<in>set (Handles.target (handles throwingNode)). \<not> isOptional handle \<longrightarrow>
           (\<exists>a. Map.empty (id' handle) = Some a \<and> arrays emptyState a \<noteq> [])"
    by (simp add: throwingNode_def)
  have a6: "(\<exists>e. throwing (bundleValue emptyState Map.empty) = Inl e) \<or>
         (\<exists>out handle. throwing (bundleValue emptyState Map.empty) = Inr out \<and>
            handle \<in> set (Handles.source (handles throwingNode)) \<and> map_of out (id' handle) = None)"
    by (simp add: throwing_def)
  have b2: "map_of [(''6'', silentNode)] ''6'' = Some silentNode" by simp
  have b3: "pipeValue silentNode = OkPipe silent" by (simp add: silentNode_def)
  have b5: "\<forall>handle\<in>set (Handles.target (handles silentNode)). \<not> isOptional handle \<longrightarrow>
           (\<exists>a. Map.empty (id' handle) = Some a \<and> arrays emptyState a \<noteq> [])"
    by (simp add: silentNode_def)
  have b6: "(\<exists>e. silent (bundleValue emptyState Map.empty) = Inl e) \<or>
         (\<exists>out handle. silent (bundleValue emptyState Map.empty) = Inr out \<and>
            handle \<in> set (Handles.source (handles silentNode)) \<and> map_of out (id' handle) = None)"
    by (simp add: silent_def silentNode_def)
  have t: "throwing (bundleValue emptyState Map.empty) = Inl (Error ''boom'')"
    by (simp add: throwing_def)
  have u: "silent (bundleValue emptyState Map.empty) = Inr []"
    by (simp add: silent_def)
  from loadCache_implementation_fault [OF 1 a2 a3 4 a5 a6] t c
  have A: "\<exists>s2. loadCache (Suc 0) [(''5'', throwingNode)] [] ''5'' emptyState =
          Some (Inr (ErrorCacheEntry Map.empty ''Error in node implementation''), s2)
        \<and> console s2 = [Error ''boom'']"
    by auto
  from loadCache_implementation_fault [OF 1 b2 b3 4 b5 b6] u c
  have B: "\<exists>s2. loadCache (Suc 0) [(''6'', silentNode)] [] ''6'' emptyState =
          Some (Inr (ErrorCacheEntry Map.empty ''Error in node implementation''), s2)
        \<and> console s2 = [Error ''Missing output data for node 6 handle data-out'']"
    by (auto simp: silentNode_def handleInfo_def)
  from A B show ?thesis ..
qed

text \<open>
  C4. The input built for a node is not always the concatenation of the upstream
  outputs. The first array that reaches a target handle is stored there itself, not a
  copy of it, and later arrays are pushed into it. After the recalculation of the
  sample graph the mapper of node \<open>1\<close> has returned \<open>[a]\<close>, yet the cache holds
  \<open>[a, b]\<close> as its output; node \<open>4\<close>, fed by node \<open>1\<close> alone, has the input
  \<open>[a, b]\<close>; and node \<open>3\<close> has the input \<open>[a, b]\<close> where the outputs the cache
  holds for nodes \<open>1\<close> and \<open>2\<close> concatenate to \<open>[a, b, b]\<close>.
\<close>

theorem loadCache_input_aliases_upstream:
  "map_option (\<lambda>(r, s). (cachedInput s ''3'' ''data-in'', cachedInput s ''4'' ''data-in'',
        cachedOutput s ''1'' ''text-out'', cachedOutput s ''2'' ''text-out''))
     (recalculate (Suc (Suc 0)) aliasNodes aliasEdges emptyState)
   = Some (Some [''a'', ''b''], Some [''a'', ''b''], Some [''a'', ''b''], Some [''b''])"
  by (simp add: example_defs)

text \<open>
  C5, as amended. Optional input. For a node with an Ok pipe value whose input handles
  without an array, or with an empty one, are all optional, \<open>loadCache\<close> calls the
  mapper, with \<open>inputData\<close> as the loop over the edges built it: the argument has no
  entry at a handle that no edge targets or that got no array, and it has the array,
  empty as it may be, at a handle that got one. When the mapper returns an object with
  every declared output handle, the entry is an output entry with that object, by value.
\<close>

theorem loadCache_optional_unmet:
  assumes "pipeCache s nodeID = None" and "map_of nodes nodeID = Some node"
    and "pipeValue node = OkPipe mapper"
    and "forEdges (loadCache fuel nodes edges) nodeID edges Map.empty s = Some (Inr inputData, s1)"
    and "\<forall>handle\<in>set (Handles.target (handles node)).
           inputData (id' handle) = None \<or> (\<exists>a. inputData (id' handle) = Some a \<and> arrays s1 a = [])
             \<longrightarrow> isOptional handle"
    and "mapper (bundleValue s1 inputData) = Inr out"
    and "\<forall>handle\<in>set (Handles.source (handles node)). map_of out (id' handle) \<noteq> None"
  shows "\<exists>outputData s2 v. loadCache (Suc fuel) nodes edges nodeID s =
            Some (Inr (OutputCacheEntry inputData outputData), s2)
         \<and> invoked s2 = invoked s1 @ [(nodeID, v)]
         \<and> mapper v = Inr out
         \<and> (\<forall>p. (\<forall>e\<in>set edges. Edge.target e = nodeID \<longrightarrow> targetHandle e \<noteq> p) \<longrightarrow> v p = None)
         \<and> (\<forall>p. inputData p = None \<longrightarrow> v p = None)
         \<and> (\<forall>p a. inputData p = Some a \<longrightarrow> v p = Some (arrays s1 a))
         \<and> bundleValue s2 outputData = map_of out"
proof -
  let ?v = "bundleValue s1 inputData"
  have nm: "\<not> missingInput (Handles.target (handles node)) inputData s1"
    unfolding missingInput_iff using assms(5) by blast
  from calcCache_output [OF assms(3) nm assms(6,7)]
  obtain outputData s2 where c: "calcCache nodeID node inputData s1 = (OutputCacheEntry inputData outputData, s2)"
    and v: "bundleValue s2 outputData = map_of out"
    and i: "invoked s2 = invoked s1 @ [(nodeID, ?v)]"
    by blast
  let ?s3 = "s2\<lparr>pipeCache := (pipeCache s2)(nodeID \<mapsto> OutputCacheEntry inputData outputData)\<rparr>"
  have 1: "loadCache (Suc fuel) nodes edges nodeID s = Some (Inr (OutputCacheEntry inputData outputData), ?s3)"
    using assms(1,2,4) c by simp
  have 2: "invoked ?s3 = invoked s1 @ [(nodeID, ?v)]"
    using i by simp
  have 3: "bundleValue ?s3 outputData = map_of out"
    using v by (simp add: bundleValue_def)
  have 4: "\<forall>p. (\<forall>e\<in>set edges. Edge.target e = nodeID \<longrightarrow> targetHandle e \<noteq> p) \<longrightarrow> ?v p = None"
  proof (intro allI impI)
    fix p
    assume u: "\<forall>e\<in>set edges. Edge.target e = nodeID \<longrightarrow> targetHandle e \<noteq> p"
    have "Map.empty p = None" by simp
    from forEdges_untargeted [OF assms(4) this u] show "?v p = None"
      by (simp add: bundleValue_def)
  qed
  have 5: "\<forall>p. inputData p = None \<longrightarrow> ?v p = None"
    by (simp add: bundleValue_def)
  have 6: "\<forall>p a. inputData p = Some a \<longrightarrow> ?v p = Some (arrays s1 a)"
    by (simp add: bundleValue_def)
  from 1 2 assms(6) 4 5 6 3 show ?thesis
    by (intro exI [of _ outputData] exI [of _ ?s3] exI [of _ ?v] conjI)
qed

theorem loadCache_optional_unmet_witness:
  "(\<exists>outputData s2. loadCache (Suc (Suc 0)) emptyFedNodes emptyFedEdges ''Feed'' emptyState =
       Some (Inr (OutputCacheEntry [''language'' \<mapsto> 0] outputData), s2)
     \<and> map (\<lambda>(n, v). (n, v ''language'')) (invoked s2) = [(''7'', None), (''Feed'', Some [])]
     \<and> bundleValue s2 outputData ''feed-out'' = Some []) \<and>
   (\<exists>outputData s2. loadCache (Suc (Suc (Suc 0))) chainNodes chainEdges ''Feed'' emptyState =
       Some (Inr (OutputCacheEntry Map.empty outputData), s2)
     \<and> map (\<lambda>(n, v). (n, v ''language'')) (invoked s2) = [(''Feed'', None)]
     \<and> bundleValue s2 outputData ''feed-out'' = Some [''en''])"
proof -
  have 1: "pipeCache emptyState ''Feed'' = None"
    by (simp add: emptyState_def)
  have 3: "pipeValue languageNode = OkPipe languageMapper"
    by (simp add: languageNode_def)
  have a2: "map_of emptyFedNodes ''Feed'' = Some languageNode"
    by (simp add: emptyFedNodes_def)
  have "\<exists>s1. forEdges (loadCache (Suc 0) emptyFedNodes emptyFedEdges) ''Feed'' emptyFedEdges Map.empty emptyState
      = Some (Inr [''language'' \<mapsto> 0], s1) \<and> arrays s1 0 = []
      \<and> map (\<lambda>(n, v). (n, v ''language'')) (invoked s1) = [(''7'', None)]"
    by (simp add: example_defs)
  then obtain s1 where a4: "forEdges (loadCache (Suc 0) emptyFedNodes emptyFedEdges) ''Feed'' emptyFedEdges Map.empty emptyState
      = Some (Inr [''language'' \<mapsto> 0], s1)" and ar: "arrays s1 0 = []"
    and ai: "map (\<lambda>(n, v). (n, v ''language'')) (invoked s1) = [(''7'', None)]"
    by (elim exE conjE)
  have a5: "\<forall>handle\<in>set (Handles.target (handles languageNode)).
           [''language'' \<mapsto> 0] (id' handle) = None
             \<or> (\<exists>a. [''language'' \<mapsto> (0::nat)] (id' handle) = Some a \<and> arrays s1 a = [])
             \<longrightarrow> isOptional handle"
    by (simp add: languageNode_def isOptional_def handleInfo_def)
  have a6: "languageMapper (bundleValue s1 [''language'' \<mapsto> 0]) = Inr [(''feed-out'', [])]"
    using ar by (simp add: languageMapper_def bundleValue_def)
  have a7: "\<forall>handle\<in>set (Handles.source (handles languageNode)).
      map_of [(''feed-out'', [])] (id' handle) \<noteq> None"
    by (simp add: languageNode_def handleInfo_def)
  from loadCache_optional_unmet [OF 1 a2 3 a4 a5 a6 a7]
  obtain outputData s2 v where
    r: "loadCache (Suc (Suc 0)) emptyFedNodes emptyFedEdges ''Feed'' emptyState =
       Some (Inr (OutputCacheEntry [''language'' \<mapsto> 0] outputData), s2)"
    and i: "invoked s2 = invoked s1 @ [(''Feed'', v)]"
    and p: "\<forall>p a. [''language'' \<mapsto> 0] p = Some a \<longrightarrow> v p = Some (arrays s1 a)"
    and o: "bundleValue s2 outputData = map_of [(''feed-out'', [])]"
    by blast
  have "v ''language'' = Some []"
    using p ar by simp
  then have m: "map (\<lambda>(n, v). (n, v ''language'')) (invoked s2) = [(''7'', None), (''Feed'', Some [])]"
    using i ai by simp
  have b: "bundleValue s2 outputData ''feed-out'' = Some []"
    using o by simp
  from r m b have A: "\<exists>outputData s2. loadCache (Suc (Suc 0)) emptyFedNodes emptyFedEdges ''Feed'' emptyState =
       Some (Inr (OutputCacheEntry [''language'' \<mapsto> 0] outputData), s2)
     \<and> map (\<lambda>(n, v). (n, v ''language'')) (invoked s2) = [(''7'', None), (''Feed'', Some [])]
     \<and> bundleValue s2 outputData ''feed-out'' = Some []"
    by (intro exI conjI)
  have b2: "map_of chainNodes ''Feed'' = Some languageNode"
    by (simp add: chainNodes_def)
  have "\<exists>s1. forEdges (loadCache (Suc (Suc 0)) chainNodes chainEdges) ''Feed'' chainEdges Map.empty emptyState
      = Some (Inr Map.empty, s1) \<and> invoked s1 = []"
    by (simp add: example_defs)
  then obtain s1' where b4: "forEdges (loadCache (Suc (Suc 0)) chainNodes chainEdges) ''Feed'' chainEdges Map.empty emptyState
      = Some (Inr Map.empty, s1')" and bi: "invoked s1' = []"
    by blast
  have b5: "\<forall>handle\<in>set (Handles.target (handles languageNode)).
           Map.empty (id' handle) = None \<or> (\<exists>a. Map.empty (id' handle) = Some a \<and> arrays s1' a = [])
             \<longrightarrow> isOptional handle"
    by (simp add: languageNode_def isOptional_def handleInfo_def)
  have b6: "languageMapper (bundleValue s1' Map.empty) = Inr [(''feed-out'', [''en''])]"
    by (simp add: languageMapper_def bundleValue_def)
  have b7: "\<forall>handle\<in>set (Handles.source (handles languageNode)).
      map_of [(''feed-out'', [''en''])] (id' handle) \<noteq> None"
    by (simp add: languageNode_def handleInfo_def)
  from loadCache_optional_unmet [OF 1 b2 3 b4 b5 b6 b7]
  obtain outputData' s2' v' where
    r': "loadCache (Suc (Suc (Suc 0))) chainNodes chainEdges ''Feed'' emptyState =
       Some (Inr (OutputCacheEntry Map.empty outputData'), s2')"
    and i': "invoked s2' = invoked s1' @ [(''Feed'', v')]"
    and p': "\<forall>p. Map.empty p = None \<longrightarrow> v' p = None"
    and o': "bundleValue s2' outputData' = map_of [(''feed-out'', [''en''])]"
    by blast
  have "v' ''language'' = None"
    using p' by simp
  then have m': "map (\<lambda>(n, v). (n, v ''language'')) (invoked s2') = [(''Feed'', None)]"
    using i' bi by simp
  have b': "bundleValue s2' outputData' ''feed-out'' = Some [''en'']"
    using o' by simp
  from r' m' b' have B: "\<exists>outputData s2. loadCache (Suc (Suc (Suc 0))) chainNodes chainEdges ''Feed'' emptyState =
       Some (Inr (OutputCacheEntry Map.empty outputData), s2)
     \<and> map (\<lambda>(n, v). (n, v ''language'')) (invoked s2) = [(''Feed'', None)]
     \<and> bundleValue s2 outputData ''feed-out'' = Some [''en'']"
    by (intro exI conjI)
  from A B show ?thesis ..
qed

text \<open>
  C5, as stated, fails: node \<open>7\<close> returns an empty array, which is the only input of
  the optional handle \<open>language\<close> of \<open>Feed\<close>. The handle is unmet, and the mapper of
  \<open>Feed\<close> is called with an argument that has the empty array at \<open>language\<close>, not
  with one that lacks the entry.
\<close>

theorem loadCache_optional_empty_present:
  "map_option (\<lambda>(r, s). (map (\<lambda>(n, v). (n, v ''language'')) (invoked s), entryError s ''Feed'',
        cachedInput s ''Feed'' ''language'', cachedOutput s ''Feed'' ''feed-out''))
     (loadCache (Suc (Suc 0)) emptyFedNodes emptyFedEdges ''Feed'' emptyState)
   = Some ([(''7'', None), (''Feed'', Some [])], None, Some [], Some [])"
  by (simp add: example_defs)

text \<open>
  C6. Completeness of the cache. When the flag is false and the recalculation returns,
  the flag is true and the cache has an entry for exactly the node ids of \<open>nodes\<close>.
  When every edge joins nodes of \<open>nodes\<close> and the edges have no cycle (a rank grows
  along every edge), the recalculation does return, given enough depth.
\<close>

theorem recalculate_complete:
  assumes "\<not> pipeCacheValid s"
  shows "(recalculate fuel nodes edges s = Some (Inr (), s1) \<longrightarrow>
            pipeCacheValid s1 \<and> dom (pipeCache s1) = fst ` set nodes) \<and>
         ((\<forall>e\<in>set edges. Edge.source e \<in> fst ` set nodes \<and> Edge.target e \<in> fst ` set nodes) \<and>
          (\<forall>e\<in>set edges. rank (Edge.source e) < (rank (Edge.target e) :: nat)) \<longrightarrow>
            (\<exists>fuel' s'. recalculate fuel' nodes edges s = Some (Inr (), s')))"
proof (intro conjI impI)
  assume "recalculate fuel nodes edges s = Some (Inr (), s1)"
  with assms show "pipeCacheValid s1" "dom (pipeCache s1) = fst ` set nodes"
    using recalculate_dom by blast+
next
  assume a: "(\<forall>e\<in>set edges. Edge.source e \<in> fst ` set nodes \<and> Edge.target e \<in> fst ` set nodes) \<and>
    (\<forall>e\<in>set edges. rank (Edge.source e) < rank (Edge.target e))"
  then have "\<forall>e\<in>set edges. Edge.source e \<in> fst ` set nodes"
    by blast
  with a show "\<exists>fuel' s'. recalculate fuel' nodes edges s = Some (Inr (), s')"
    using recalculate_returns [of edges rank nodes s] by blast
qed

theorem recalculate_complete_witness:
  "\<exists>s1. recalculate (Suc (Suc 0)) aliasNodes aliasEdges emptyState = Some (Inr (), s1) \<and>
     pipeCacheValid s1 \<and> dom (pipeCache s1) = {''1'', ''2'', ''3'', ''4''}"
proof -
  have v: "\<not> pipeCacheValid emptyState"
    by (simp add: emptyState_def)
  have "\<exists>s1. recalculate (Suc (Suc 0)) aliasNodes aliasEdges emptyState = Some (Inr (), s1)"
    by (simp add: example_defs)
  then obtain s1 where r: "recalculate (Suc (Suc 0)) aliasNodes aliasEdges emptyState = Some (Inr (), s1)"
    by blast
  have "fst ` set aliasNodes = {''1'', ''2'', ''3'', ''4''}"
    by (simp add: aliasNodes_def)
  with r show ?thesis
    using recalculate_complete [OF v, of "Suc (Suc 0)" aliasNodes aliasEdges s1] by simp
qed

text \<open>
  C7, as amended. A dangling edge is not ignored. When an edge into node \<open>n\<close> comes
  from a node id that \<open>nodes\<close> does not hold, neither id is a name that every object
  inherits, and neither node has an entry in the cache, every \<open>loadCache\<close> of \<open>n\<close>
  that returns has thrown the TypeError of reading the missing node: it never returns
  an entry.
\<close>

theorem loadCache_dangling_edge:
  assumes "e \<in> set edges" and "Edge.target e = n"
    and "map_of nodes (Edge.source e) = None" and "pipeCache s (Edge.source e) = None"
    and "pipeCache s n = None"
    and "loadCache fuel nodes edges n s = Some (r, s1)"
    and "\<not> inheritedName (Edge.source e)" and "\<not> inheritedName n"
  shows "r = Inl (TypeError ''Cannot read properties of undefined'')"
  using assms(6)
proof (cases rule: loadCache_cases)
  case (cached fuel' entry)
  then show ?thesis using assms(5) by simp
next
  case (unknown fuel')
  then show ?thesis by simp
next
  case (thrown fuel' node f)
  from loadCache_fault thrown(4) have "f = TypeError ''Cannot read properties of undefined''"
    by (rule forEdges_fault)
  then show ?thesis using thrown(5) by simp
next
  case (stored fuel' node inputData s' entry s2)
  let ?d = "Edge.source e"
  have "False"
  proof (rule forEdges_dangling [where d = ?d and rec = "loadCache fuel' nodes edges",
        OF _ _ assms(2) refl stored(4) assms(1,4)])
    show "pipeCache b ?d = None"
      if "loadCache fuel' nodes edges m a = Some (r, b)" "pipeCache a ?d = None" for m a r b
    proof -
      have "?d \<notin> dom (pipeCache a) \<union> dom (map_of nodes)"
        using that(2) assms(3) by (simp add: domIff)
      then have "?d \<notin> dom (pipeCache b)"
        using loadCache_dom [OF that(1)] by blast
      then show ?thesis by (simp add: domIff)
    qed
    show "loadCache fuel' nodes edges ?d a \<noteq> Some (Inr entry, b)"
      if "pipeCache a ?d = None" for a entry b
    proof
      assume "loadCache fuel' nodes edges ?d a = Some (Inr entry, b)"
      then show False
        using that assms(3) by (cases rule: loadCache_cases) simp_all
    qed
  qed
  then show ?thesis ..
qed

theorem loadCache_dangling_edge_witness:
  "\<exists>s1. loadCache (Suc (Suc 0)) danglingNodes danglingEdges ''3'' emptyState =
     Some (Inl (TypeError ''Cannot read properties of undefined''), s1)"
proof -
  have 1: "edge ''9'' ''text-out'' ''3'' ''data-in'' \<in> set danglingEdges"
    by (simp add: danglingEdges_def)
  have 2: "Edge.target (edge ''9'' ''text-out'' ''3'' ''data-in'') = ''3''"
    by (simp add: edge_def)
  have 3: "map_of danglingNodes (Edge.source (edge ''9'' ''text-out'' ''3'' ''data-in'')) = None"
    by (simp add: edge_def danglingNodes_def)
  have 4: "pipeCache emptyState n = None" for n
    by (simp add: emptyState_def)
  have "\<exists>r s1. loadCache (Suc (Suc 0)) danglingNodes danglingEdges ''3'' emptyState = Some (r, s1)"
    by (simp add: example_defs)
  then obtain r s1 where 6: "loadCache (Suc (Suc 0)) danglingNodes danglingEdges ''3'' emptyState = Some (r, s1)"
    by blast
  have 7: "\<not> inheritedName (Edge.source (edge ''9'' ''text-out'' ''3'' ''data-in''))"
    by (simp add: edge_def inheritedName_def)
  have 8: "\<not> inheritedName ''3''"
    by (simp add: inheritedName_def)
  from loadCache_dangling_edge [OF 1 2 3 4 4 6 7 8] 6 show ?thesis
    by blast
qed

text \<open>
  C7, as stated, fails: with the single edge from the missing node \<open>9\<close> into node
  \<open>3\<close>, \<open>loadCache\<close> of node \<open>3\<close> throws.
\<close>

theorem loadCache_dangling_edge_throws:
  "loadCache (Suc (Suc 0)) danglingNodes danglingEdges ''3'' emptyState =
     Some (Inl (TypeError ''Cannot read properties of undefined''), emptyState)"
  by (simp add: example_defs)

text \<open>
  C8. \<open>loadCache\<close> of one node changes the entry the cache holds for another. Node
  \<open>1\<close> is in the cache with the output \<open>[a]\<close>; \<open>loadCache\<close> of node \<open>3\<close> leaves
  the entry of node \<open>1\<close> in place, and its output is then \<open>[a, b]\<close>: the values of
  node \<open>2\<close> were pushed into the output array of node \<open>1\<close>.
\<close>

theorem loadCache_changes_cached_output:
  "(case loadCache (Suc 0) aliasNodes aliasEdges ''1'' emptyState of
      None \<Rightarrow> None
    | Some (r, s) \<Rightarrow>
        (case loadCache (Suc (Suc 0)) aliasNodes aliasEdges ''3'' s of
           None \<Rightarrow> None
         | Some (r', s') \<Rightarrow>
             Some (pipeCache s ''1'' = pipeCache s' ''1'',
                   cachedOutput s ''1'' ''text-out'', cachedOutput s' ''1'' ''text-out'')))
   = Some (True, Some [''a''], Some [''a'', ''b''])"
  by (simp add: example_defs)

lemma duplicateEdge_iff:
  "duplicateEdge newEdge edges \<longleftrightarrow>
     (\<exists>edge\<in>set edges. Edge.source edge = Edge.source newEdge \<and> Edge.target edge = Edge.target newEdge
        \<and> sourceHandle edge = sourceHandle newEdge \<and> targetHandle edge = targetHandle newEdge)"
  by (induction edges) auto

text \<open>
  C9. Edge rejection. \<open>onConnect\<close> with an edge from a node to itself, or with an edge
  whose source node, source handle, target node and target handle are those of an edge
  already present, leaves the edges and the \<open>pipeCacheValid\<close> flag as they are.
\<close>

theorem onConnect_rejects:
  assumes "Edge.source newEdge = Edge.target newEdge \<or>
     (\<exists>edge\<in>set edges. Edge.source edge = Edge.source newEdge \<and> sourceHandle edge = sourceHandle newEdge
        \<and> Edge.target edge = Edge.target newEdge \<and> targetHandle edge = targetHandle newEdge)"
  shows "onConnect addEdge newEdge (edges, valid) = (edges, valid)"
proof (cases "Edge.source newEdge = Edge.target newEdge")
  case True
  then show ?thesis by (simp add: onConnect_def)
next
  case False
  with assms have "duplicateEdge newEdge edges"
    unfolding duplicateEdge_iff by blast
  then show ?thesis by (simp add: onConnect_def)
qed

theorem onConnect_rejects_witness:
  "onConnect (\<lambda>e es. es @ [e]) (edge ''3'' ''data-out'' ''3'' ''data-in'') (aliasEdges, True) = (aliasEdges, True) \<and>
   onConnect (\<lambda>e es. es @ [e]) (edge ''2'' ''text-out'' ''3'' ''data-in'') (aliasEdges, True) = (aliasEdges, True)"
proof -
  let ?self = "edge ''3'' ''data-out'' ''3'' ''data-in''"
  let ?dup = "edge ''2'' ''text-out'' ''3'' ''data-in''"
  have 1: "Edge.source ?self = Edge.target ?self \<or>
     (\<exists>edge\<in>set aliasEdges. Edge.source edge = Edge.source ?self \<and> sourceHandle edge = sourceHandle ?self
        \<and> Edge.target edge = Edge.target ?self \<and> targetHandle edge = targetHandle ?self)"
    by (simp add: edge_def)
  have 2: "Edge.source ?dup = Edge.target ?dup \<or>
     (\<exists>edge\<in>set aliasEdges. Edge.source edge = Edge.source ?dup \<and> sourceHandle edge = sourceHandle ?dup
        \<and> Edge.target edge = Edge.target ?dup \<and> targetHandle edge = targetHandle ?dup)"
    by (simp add: edge_def aliasEdges_def)
  show ?thesis
    using onConnect_rejects [OF 1] onConnect_rejects [OF 2] by simp
qed

text \<open>
  C10. \<open>mapMessage\<close> keeps the sender and the kind of a message; it applies the
  function to the value of an Ok message and returns a BadConfig or Err message as it is.
\<close>

theorem mapMessage_structure:
  "fromNode (mapMessage m f) = fromNode m \<and> kind (mapMessage m f) = kind m \<and>
   (\<forall>n v. m = OkMessage n v \<longrightarrow> mapMessage m f = OkMessage n (f v)) \<and>
   (\<forall>n. m = BadConfigMessage n \<longrightarrow> mapMessage m f = BadConfigMessage n) \<and>
   (\<forall>n e. m = ErrMessage n e \<longrightarrow> mapMessage m f = ErrMessage n e)"
  by (cases m) simp_all

theorem mapMessage_structure_witness:
  "mapMessage (OkMessage ''1'' (3::nat)) Suc = OkMessage ''1'' (4::nat) \<and>
   mapMessage (BadConfigMessage ''1'' :: nat PipeMessage) Suc = BadConfigMessage ''1'' \<and>
   mapMessage (ErrMessage ''1'' ''404'' :: nat PipeMessage) Suc = ErrMessage ''1'' ''404''"
  using mapMessage_structure [of "OkMessage ''1'' (3::nat)" Suc]
    mapMessage_structure [of "BadConfigMessage ''1'' :: nat PipeMessage" Suc]
    mapMessage_structure [of "ErrMessage ''1'' ''404'' :: nat PipeMessage" Suc]
  by simp

section \<open>Further properties\<close>

lemma calcCache_arrays:
  assumes "calcCache nodeID node inputData s = (entry, s2)"
  shows "nextArray s \<le> nextArray s2 \<and> (\<forall>a < nextArray s. arrays s2 a = arrays s a)"
proof (cases "pipeValue node")
  case (OkPipe mapper)
  show ?thesis
  proof (cases "missingInput (Handles.target (handles node)) inputData s")
    case True
    then show ?thesis using assms OkPipe by (auto simp: calcCache_def)
  next
    case False
    let ?s1 = "s\<lparr>invoked := invoked s @ [(nodeID, bundleValue s inputData)]\<rparr>"
    show ?thesis
    proof (cases "mapper (bundleValue s inputData)")
      case (Inl e)
      then show ?thesis using assms OkPipe False by (auto simp: calcCache_def)
    next
      case (Inr out)
      obtain outputData s3 where al: "allocBundle out ?s1 = (outputData, s3)"
        by (cases "allocBundle out ?s1")
      show ?thesis
        using assms OkPipe False Inr al allocBundle_frame [OF al]
        by (auto simp: calcCache_def split: option.splits)
    qed
  qed
next
  case BadConfigPipe
  then show ?thesis using assms by (auto simp: calcCache_def)
next
  case (ErrPipe e)
  then show ?thesis using assms by (auto simp: calcCache_def)
qed

lemma forEdges_single:
  assumes rec: "\<And>m s r s1. rec m s = Some (r, s1) \<Longrightarrow> R s s1"
    and refl: "\<And>s. R s s"
    and trans: "\<And>a b c. R a b \<Longrightarrow> R b c \<Longrightarrow> R a c"
  shows "forEdges rec n es inp s = Some (r, s1)
     \<Longrightarrow> distinct (map (\<lambda>e. (Edge.target e, targetHandle e)) es)
     \<Longrightarrow> \<forall>e\<in>set es. Edge.target e = n \<longrightarrow> inp (targetHandle e) = None
     \<Longrightarrow> R s s1"
proof (induction es arbitrary: inp s)
  case Nil
  then show ?case using refl by simp
next
  case (Cons e es)
  have d: "distinct (map (\<lambda>e. (Edge.target e, targetHandle e)) es)"
    using Cons.prems(2) by simp
  have rest: "\<forall>e\<in>set es. Edge.target e = n \<longrightarrow> inp (targetHandle e) = None"
    using Cons.prems(3) by simp
  from Cons.prems(1) show ?case
  proof (cases rule: forEdges_step)
    case skip
    from Cons.IH [OF skip(2) d rest] show ?thesis .
  next
    case (fault f)
    from rec [OF fault(2)] show ?thesis .
  next
    case (none entry s')
    from rec [OF none(2)] Cons.IH [OF none(4) d rest] show ?thesis by (rule trans)
  next
    case (set entry s' a)
    have "\<forall>e'\<in>set es. Edge.target e' = n \<longrightarrow> (inp(targetHandle e \<mapsto> a)) (targetHandle e') = None"
    proof (intro ballI impI)
      fix e' assume e': "e' \<in> set es" "Edge.target e' = n"
      then have "(Edge.target e', targetHandle e') \<in> (\<lambda>e. (Edge.target e, targetHandle e)) ` set es"
        by (intro imageI)
      moreover have "(Edge.target e, targetHandle e) \<notin> (\<lambda>e. (Edge.target e, targetHandle e)) ` set es"
        using Cons.prems(2) by simp
      ultimately have "(Edge.target e', targetHandle e') \<noteq> (Edge.target e, targetHandle e)"
        by metis
      then have "targetHandle e' \<noteq> targetHandle e"
        using e'(2) set(1) by simp
      then show "(inp(targetHandle e \<mapsto> a)) (targetHandle e') = None"
        using rest e' by simp
    qed
    from rec [OF set(2)] Cons.IH [OF set(5) d this] show ?thesis by (rule trans)
  next
    case (push entry s' a b)
    then show ?thesis using Cons.prems(3) by simp
  qed
qed

lemma loadCache_single_arrays:
  assumes "distinct (map (\<lambda>e. (Edge.target e, targetHandle e)) edges)"
  shows "loadCache fuel nodes edges n s = Some (r, s1) \<Longrightarrow>
     pipeCache s \<subseteq>\<^sub>m pipeCache s1 \<and> nextArray s \<le> nextArray s1 \<and>
     (\<forall>a < nextArray s. arrays s1 a = arrays s a)"
proof (induction fuel arbitrary: n s r s1)
  case 0
  then show ?case by simp
next
  case (Suc fuel)
  let ?R = "\<lambda>s s1. pipeCache s \<subseteq>\<^sub>m pipeCache s1 \<and> nextArray s \<le> nextArray s1 \<and>
     (\<forall>a < nextArray s. arrays s1 a = arrays s a)"
  have loop: "?R s0 s0'" if "forEdges (loadCache fuel nodes edges) n edges Map.empty s0 = Some (r0, s0')"
    for s0 r0 s0'
  proof (rule forEdges_single [where R = ?R, OF _ _ _ that assms])
    show "?R a b" if "loadCache fuel nodes edges m a = Some (r, b)" for m a r b
      using Suc.IH [OF that] .
    show "?R a a" for a by simp
    show "?R a c" if "?R a b" "?R b c" for a b c
      using that map_le_trans [of "pipeCache a" "pipeCache b" "pipeCache c"] by auto
    show "\<forall>e\<in>set edges. Edge.target e = n \<longrightarrow> Map.empty (targetHandle e) = None"
      by simp
  qed
  from Suc.prems show ?case
  proof (cases rule: loadCache_cases)
    case (cached fuel' entry)
    then show ?thesis by simp
  next
    case (unknown fuel')
    then show ?thesis by simp
  next
    case (thrown fuel' node e)
    then have "forEdges (loadCache fuel nodes edges) n edges Map.empty s = Some (Inl e, s1)"
      by simp
    from loop [OF this] show ?thesis .
  next
    case (stored fuel' node inputData s' entry s2)
    then have l: "forEdges (loadCache fuel nodes edges) n edges Map.empty s = Some (Inr inputData, s')"
      by simp
    have n': "pipeCache s' n = None"
      using forEdges_not_self [OF stored(2) l] .
    have "pipeCache s2 = pipeCache s'"
      using calcCache_frame [OF stored(5)] by simp
    then have "pipeCache s' \<subseteq>\<^sub>m pipeCache s1"
      using n' stored(7) by (auto simp: map_le_def)
    moreover have "nextArray s' \<le> nextArray s1" "\<forall>a < nextArray s'. arrays s1 a = arrays s' a"
      using calcCache_arrays [OF stored(5)] stored(7) by simp_all
    ultimately have "?R s' s1" by simp
    with loop [OF l] show ?thesis
      using map_le_trans [of "pipeCache s" "pipeCache s'" "pipeCache s1"] by auto
  qed
qed

lemma bundleValue_same:
  assumes "ran b \<subseteq> {..<k}" and "\<forall>a < k. arrays s1 a = arrays s a"
  shows "bundleValue s1 b = bundleValue s b"
proof
  fix p
  show "bundleValue s1 b p = bundleValue s b p"
  proof (cases "b p")
    case None
    then show ?thesis by (simp add: bundleValue_def)
  next
    case (Some a)
    then have "a \<in> ran b" by (rule ranI)
    then have "a < k" using assms(1) by blast
    then show ?thesis using Some assms(2) by (simp add: bundleValue_def)
  qed
qed

text \<open>
  X1. Where every input handle has at most one incoming edge, \<open>loadCache\<close> keeps
  every entry of the cache in place, with the same input and output by value (for an
  entry whose arrays are arrays of the store).
\<close>

theorem loadCache_single_edges_frame:
  assumes "distinct (map (\<lambda>e. (Edge.target e, targetHandle e)) edges)"
    and "loadCache fuel nodes edges n s = Some (r, s1)"
    and "pipeCache s m = Some entry" and "addresses entry \<subseteq> {..<nextArray s}"
  shows "pipeCache s1 m = Some entry \<and> cachedInput s1 m = cachedInput s m \<and>
     cachedOutput s1 m = cachedOutput s m"
proof -
  from loadCache_single_arrays [OF assms(1,2)]
  have le: "pipeCache s \<subseteq>\<^sub>m pipeCache s1" and same: "\<forall>a < nextArray s. arrays s1 a = arrays s a"
    by simp_all
  have e: "pipeCache s1 m = Some entry"
    using le assms(3) by (auto simp: map_le_def dest: bspec [where x = m])
  have "ran (input' entry) \<subseteq> {..<nextArray s}"
    using assms(4) by (simp add: addresses_def)
  then have i: "bundleValue s1 (input' entry) = bundleValue s (input' entry)"
    using same by (rule bundleValue_same)
  have o: "bundleValue s1 out = bundleValue s out" if "output' entry = Some out" for out
  proof -
    have "ran out \<subseteq> {..<nextArray s}"
      using assms(4) that by (simp add: addresses_def)
    then show ?thesis using same by (rule bundleValue_same)
  qed
  have "cachedInput s1 m = cachedInput s m"
    using e assms(3) i by (simp add: cachedInput_def fun_eq_iff)
  moreover have "cachedOutput s1 m = cachedOutput s m"
    using e assms(3) o by (auto simp: cachedOutput_def fun_eq_iff split: option.splits)
  ultimately show ?thesis using e by simp
qed

theorem loadCache_single_edges_frame_witness:
  "\<exists>entry s r s1. loadCache (Suc 0) singleNodes singleEdges ''1'' emptyState = Some (Inr entry, s) \<and>
     loadCache (Suc (Suc 0)) singleNodes singleEdges ''4'' s = Some (r, s1) \<and>
     pipeCache s1 ''1'' = Some entry \<and> cachedOutput s ''1'' ''text-out'' = Some [''a''] \<and>
     cachedOutput s1 ''1'' ''text-out'' = Some [''a'']"
proof -
  have d: "distinct (map (\<lambda>e. (Edge.target e, targetHandle e)) singleEdges)"
    by (simp add: singleEdges_def edge_def)
  have "\<exists>entry s. loadCache (Suc 0) singleNodes singleEdges ''1'' emptyState = Some (Inr entry, s) \<and>
      pipeCache s ''1'' = Some entry \<and> addresses entry \<subseteq> {..<nextArray s} \<and>
      cachedOutput s ''1'' ''text-out'' = Some [''a''] \<and>
      (\<exists>r s1. loadCache (Suc (Suc 0)) singleNodes singleEdges ''4'' s = Some (r, s1))"
    by (simp add: example_defs addresses_def)
  then obtain entry s r s1 where
    a: "loadCache (Suc 0) singleNodes singleEdges ''1'' emptyState = Some (Inr entry, s)"
    and b: "pipeCache s ''1'' = Some entry" "addresses entry \<subseteq> {..<nextArray s}"
    and c: "cachedOutput s ''1'' ''text-out'' = Some [''a'']"
    and l: "loadCache (Suc (Suc 0)) singleNodes singleEdges ''4'' s = Some (r, s1)"
    by blast
  from loadCache_single_edges_frame [OF d l b] a l c show ?thesis
    by auto
qed

text \<open>
  X2. A node whose pipe value is BadConfig gets the error entry "Node configuration is
  invalid", and a node whose pipe value is Err gets the error entry with the text of
  its own error; no mapper is called and nothing is logged for either.
\<close>

theorem loadCache_not_configured:
  assumes "pipeCache s nodeID = None" and "map_of nodes nodeID = Some node"
    and "forEdges (loadCache fuel nodes edges) nodeID edges Map.empty s = Some (Inr inputData, s1)"
    and "pipeValue node = BadConfigPipe \<and> text = ''Node configuration is invalid''
       \<or> pipeValue node = ErrPipe text"
  shows "loadCache (Suc fuel) nodes edges nodeID s =
     Some (Inr (ErrorCacheEntry inputData text),
           s1\<lparr>pipeCache := (pipeCache s1)(nodeID \<mapsto> ErrorCacheEntry inputData text)\<rparr>)"
proof -
  have "calcCache nodeID node inputData s1 = (ErrorCacheEntry inputData text, s1)"
    using assms(4) by (auto simp: calcCache_def)
  then show ?thesis
    using assms(1-3) by simp
qed

theorem loadCache_not_configured_witness:
  "loadCache (Suc 0) chainNodes chainEdges ''1'' emptyState =
     Some (Inr (ErrorCacheEntry Map.empty ''404 Not Found''),
           emptyState\<lparr>pipeCache := (pipeCache emptyState)(''1'' \<mapsto> ErrorCacheEntry Map.empty ''404 Not Found'')\<rparr>)"
proof -
  let ?node = "\<lparr>handles = handles (textInputNode ''a''), pipeValue = ErrPipe ''404 Not Found''\<rparr>"
  have 1: "pipeCache emptyState ''1'' = None"
    by (simp add: emptyState_def)
  have 2: "map_of chainNodes ''1'' = Some ?node"
    by (simp add: chainNodes_def)
  have 3: "forEdges (loadCache 0 chainNodes chainEdges) ''1'' chainEdges Map.empty emptyState
      = Some (Inr Map.empty, emptyState)"
    by (simp add: chainEdges_def edge_def)
  have 4: "pipeValue ?node = BadConfigPipe \<and> ''404 Not Found'' = ''Node configuration is invalid''
       \<or> pipeValue ?node = ErrPipe ''404 Not Found''"
    by simp
  show ?thesis
    using loadCache_not_configured [OF 1 2 3 4] .
qed

text \<open>
  X3. The only fault that leaves \<open>loadCache\<close> is the TypeError of reading a node that
  \<open>nodes\<close> does not hold: what a mapper throws is caught and becomes an error entry.
\<close>

theorem loadCache_throws_only_TypeError:
  assumes "loadCache fuel nodes edges n s = Some (Inl f, s1)"
  shows "f = TypeError ''Cannot read properties of undefined''"
  using assms by (rule loadCache_fault)

theorem loadCache_throws_only_TypeError_witness:
  "\<exists>f s1. loadCache (Suc 0) danglingNodes danglingEdges ''9'' emptyState = Some (Inl f, s1) \<and>
     f = TypeError ''Cannot read properties of undefined''"
proof -
  have "\<exists>f s1. loadCache (Suc 0) danglingNodes danglingEdges ''9'' emptyState = Some (Inl f, s1)"
    by (simp add: example_defs)
  then obtain f s1 where
    l: "loadCache (Suc 0) danglingNodes danglingEdges ''9'' emptyState = Some (Inl f, s1)"
    by blast
  from loadCache_throws_only_TypeError [OF l] l show ?thesis
    by blast
qed

text \<open>
  X4. Errors do not stop the rest of the graph. In the chain \<open>1 \<rightarrow> 2 \<rightarrow> Feed\<close>, where
  node \<open>1\<close> has failed, node \<open>2\<close> needs its input and the input of \<open>Feed\<close> is
  optional, the recalculation gives node \<open>1\<close> its own error, node \<open>2\<close> the error
  "Missing input", and \<open>Feed\<close> an output.
\<close>

theorem recalculate_error_isolation:
  "map_option (\<lambda>(r, s). (entryError s ''1'', entryError s ''2'', entryError s ''Feed'',
        cachedOutput s ''Feed'' ''feed-out''))
     (recalculate (Suc (Suc (Suc 0))) chainNodes chainEdges emptyState)
   = Some (Some ''404 Not Found'', Some ''Missing input'', None, Some [''en''])"
  by (simp add: example_defs)

end
